theory Spec2Isabelle
  imports Main "HOL-Library.Sublist"
begin

section \<open>Python strings\<close>

text \<open>
  A Python \<^verbatim>\<open>str\<close> is a sequence of Unicode code points; it is modelled as a list of
  natural numbers, one per code point. The literals of \<^verbatim>\<open>app.py\<close> are written out
  as code-point lists below.
\<close>

type_synonym ustr = "nat list"

text \<open>
  \<^verbatim>\<open>str.isspace\<close> on one code point. \<^verbatim>\<open>str.strip()\<close> and the regular-expression
  class \<^verbatim>\<open>\s\<close> (on a \<^verbatim>\<open>str\<close> pattern) both use this set.
\<close>

definition isspace :: "nat \<Rightarrow> bool" where
  "isspace c \<longleftrightarrow>
     (9 \<le> c \<and> c \<le> 13) \<or> (28 \<le> c \<and> c \<le> 32) \<or> c = 133 \<or> c = 160 \<or> c = 5760 \<or>
     (8192 \<le> c \<and> c \<le> 8202) \<or> c = 8232 \<or> c = 8233 \<or> c = 8239 \<or> c = 8287 \<or> c = 12288"

text \<open>\<^verbatim>\<open>s.strip()\<close>\<close>

definition strip :: "ustr \<Rightarrow> ustr" where
  "strip s = rev (dropWhile isspace (rev (dropWhile isspace s)))"

text \<open>\<^verbatim>\<open>s.split(d)\<close> for a one-character separator: always at least one piece.\<close>

fun split_on :: "nat \<Rightarrow> ustr \<Rightarrow> ustr list" where
  "split_on d [] = [[]]"
| "split_on d (x # xs) =
     (if x = d then [] # split_on d xs
      else (case split_on d xs of [] \<Rightarrow> [[x]] | l # ls \<Rightarrow> (x # l) # ls))"

text \<open>\<^verbatim>\<open>sep.join(parts)\<close>\<close>

fun join :: "ustr \<Rightarrow> ustr list \<Rightarrow> ustr" where
  "join sep [] = []"
| "join sep [x] = x"
| "join sep (x # y # ys) = x @ sep @ join sep (y # ys)"

text \<open>\<^verbatim>\<open>p in s\<close> on strings: \<open>p\<close> occurs in \<open>s\<close> as a contiguous substring.\<close>

fun str_in :: "ustr \<Rightarrow> ustr \<Rightarrow> bool" where
  "str_in p [] = (p = [])"
| "str_in p (x # xs) = (prefix p (x # xs) \<or> str_in p xs)"

section \<open>The regular expressions of the \<^verbatim>\<open>re\<close> module used by \<^verbatim>\<open>app.py\<close>\<close>

text \<open>
  Character classes: \<^verbatim>\<open>.\<close> under \<^verbatim>\<open>re.DOTALL\<close>, a negated one-character set such as
  \<^verbatim>\<open>[^>]\<close>, a positive set (the two colons, or \<^verbatim>\<open>\n\<close> alone), and \<^verbatim>\<open>\s\<close>.
\<close>

datatype cclass = CAny | CNot nat | CIn "nat list" | CSpace

fun cmatch :: "cclass \<Rightarrow> nat \<Rightarrow> bool" where
  "cmatch CAny c = True"
| "cmatch (CNot d) c = (c \<noteq> d)"
| "cmatch (CIn ds) c = (c \<in> set ds)"
| "cmatch CSpace c = isspace c"

text \<open>
  A literal pattern character \<open>p\<close> under \<^verbatim>\<open>re.IGNORECASE\<close> matches \<open>c\<close> when the simple
  lower-case mapping of \<open>c\<close> is \<open>p\<close>, or \<open>c\<close> is one of the extra case variants that
  \<^verbatim>\<open>re\<close> adds for \<open>p\<close>. For the pattern characters of \<^verbatim>\<open>app.py\<close> (lower-case ASCII
  letters, ASCII punctuation, caseless CJK characters) that is: \<open>p\<close> itself, its ASCII
  capital, U+0130 and U+0131 for \<^verbatim>\<open>i\<close>, U+212A for \<^verbatim>\<open>k\<close> and U+017F for \<^verbatim>\<open>s\<close>.
\<close>

definition ieq :: "nat \<Rightarrow> nat \<Rightarrow> bool" where
  "ieq p c \<longleftrightarrow>
     c = p \<or> (97 \<le> p \<and> p \<le> 122 \<and> c + 32 = p) \<or>
     (p = 105 \<and> (c = 304 \<or> c = 305)) \<or> (p = 107 \<and> c = 8490) \<or> (p = 115 \<and> c = 383)"

text \<open>
  The pattern syntax that occurs in the source: literals (case-sensitive or not), one
  character of a class, sequence, alternation \<^verbatim>\<open>a|b\<close>, greedy option \<^verbatim>\<open>a?\<close>, greedy
  repetition \<^verbatim>\<open>c{n,}\<close> of a class (\<^verbatim>\<open>c*\<close> is \<^verbatim>\<open>c{0,}\<close>), lazy repetition \<^verbatim>\<open>c*?\<close>,
  the capture group, the lookahead \<^verbatim>\<open>(?=a)\<close> and \<^verbatim>\<open>$\<close>.
\<close>

datatype regex =
    Chars ustr
  | CharsI ustr
  | Cls cclass
  | Seq regex regex
  | Alt regex regex
  | Opt regex
  | Rep cclass nat
  | RepLazy cclass
  | Group regex
  | Ahead regex
  | Eos

fun seqs :: "regex list \<Rightarrow> regex" where
  "seqs [] = Chars []"
| "seqs [r] = r"
| "seqs (r # r' # rs) = Seq r (seqs (r' # rs))"

text \<open>
  Greedy repetition tries the longest run first and gives characters back one at a
  time; lazy repetition tries the empty run first and takes characters one at a time.
  Both list the strings that may remain, in the order the matcher tries them.
\<close>

fun rep_greedy :: "cclass \<Rightarrow> nat \<Rightarrow> ustr \<Rightarrow> ustr list" where
  "rep_greedy c n [] = (if n = 0 then [[]] else [])"
| "rep_greedy c n (x # xs) =
     (if cmatch c x then rep_greedy c (n - 1) xs else []) @ (if n = 0 then [x # xs] else [])"

fun rep_lazy :: "cclass \<Rightarrow> ustr \<Rightarrow> ustr list" where
  "rep_lazy c [] = [[]]"
| "rep_lazy c (x # xs) = (x # xs) # (if cmatch c x then rep_lazy c xs else [])"

text \<open>
  The backtracking matcher. \<open>rmatch r s\<close> lists, in the order a backtracking search
  reaches them, the ways \<open>r\<close> matches at the start of \<open>s\<close>: each is the text captured by
  the group (if the group took part) and the rest of \<open>s\<close> after the match. The match that
  \<^verbatim>\<open>re\<close> reports is the first of the list.
\<close>

fun later :: "ustr option \<Rightarrow> ustr option \<Rightarrow> ustr option" where
  "later g None = g"
| "later g (Some h) = Some h"

fun rmatch :: "regex \<Rightarrow> ustr \<Rightarrow> (ustr option \<times> ustr) list" where
  "rmatch (Chars p) s = (if prefix p s then [(None, drop (length p) s)] else [])"
| "rmatch (CharsI p) s =
     (if length p \<le> length s \<and> list_all2 ieq p (take (length p) s)
      then [(None, drop (length p) s)] else [])"
| "rmatch (Cls c) s = (case s of [] \<Rightarrow> [] | x # xs \<Rightarrow> if cmatch c x then [(None, xs)] else [])"
| "rmatch (Seq a b) s =
     concat (map (\<lambda>m. map (\<lambda>m'. (later (fst m) (fst m'), snd m')) (rmatch b (snd m))) (rmatch a s))"
| "rmatch (Alt a b) s = rmatch a s @ rmatch b s"
| "rmatch (Opt a) s = rmatch a s @ [(None, s)]"
| "rmatch (Rep c n) s = map (Pair None) (rep_greedy c n s)"
| "rmatch (RepLazy c) s = map (Pair None) (rep_lazy c s)"
| "rmatch (Group a) s = map (\<lambda>m. (Some (take (length s - length (snd m)) s), snd m)) (rmatch a s)"
| "rmatch (Ahead a) s = (if rmatch a s = [] then [] else [(None, s)])"
| "rmatch Eos s = (if s = [] \<or> s = [10] then [(None, s)] else [])"

text \<open>
  The replacement template of \<^verbatim>\<open>re.sub\<close>: literal text and \<^verbatim>\<open>\1\<close>. A group that did
  not take part in the match expands to the empty string.
\<close>

datatype ritem = RLit ustr | RGroup

fun expand :: "ritem list \<Rightarrow> ustr option \<Rightarrow> ustr" where
  "expand [] g = []"
| "expand (RLit t # rs) g = t @ expand rs g"
| "expand (RGroup # rs) g = (case g of None \<Rightarrow> [] | Some t \<Rightarrow> t) @ expand rs g"

text \<open>
  The match at the current position. After an empty match \<^verbatim>\<open>re.sub\<close> asks for a match
  that advances, so the first way that consumes a character is taken.
\<close>

definition first_match :: "bool \<Rightarrow> regex \<Rightarrow> ustr \<Rightarrow> (ustr option \<times> ustr) option" where
  "first_match adv r s = find (\<lambda>m. \<not> adv \<or> length (snd m) < length s) (rmatch r s)"

lemma rep_greedy_length: "t \<in> set (rep_greedy c n s) \<Longrightarrow> length t \<le> length s"
  by (induction c n s rule: rep_greedy.induct) (auto split: if_splits simp: le_Suc_eq)

lemma rep_lazy_length: "t \<in> set (rep_lazy c s) \<Longrightarrow> length t \<le> length s"
  by (induction c s rule: rep_lazy.induct) (auto split: if_splits simp: le_Suc_eq)

lemma rmatch_length: "m \<in> set (rmatch r s) \<Longrightarrow> length (snd m) \<le> length s"
proof (induction r arbitrary: s m)
  case (Seq a b)
  then obtain m1 m2 where m1: "m1 \<in> set (rmatch a s)" and m2: "m2 \<in> set (rmatch b (snd m1))"
    and m: "snd m = snd m2"
    by auto
  from Seq.IH(1)[OF m1] Seq.IH(2)[OF m2] m show ?case by simp
next
  case (Cls c)
  then show ?case by (cases s) (auto split: if_splits)
next
  case (Rep c n)
  then show ?case by (auto dest: rep_greedy_length)
next
  case (RepLazy c)
  then show ?case by (auto dest: rep_lazy_length)
qed (auto split: if_splits)

lemma first_match_length: "first_match adv r s = Some m \<Longrightarrow> length (snd m) \<le> length s"
  unfolding first_match_def by (auto simp: find_Some_iff dest: rmatch_length nth_mem)

lemma first_match_advances:
  "first_match True r s = Some m \<Longrightarrow> length (snd m) < length s"
  unfolding first_match_def by (auto simp: find_Some_iff)

text \<open>
  \<^verbatim>\<open>re.sub(pattern, repl, s)\<close>: scan from the left; where the pattern matches, emit the
  replacement and continue after the match; where it does not, copy one character. After
  an empty match the next match at the same position has to advance.
\<close>

function sub_from :: "regex \<Rightarrow> ritem list \<Rightarrow> bool \<Rightarrow> ustr \<Rightarrow> ustr" where
  "sub_from r rp adv s =
     (case first_match adv r s of
        Some m \<Rightarrow> expand rp (fst m) @ sub_from r rp (length (snd m) = length s) (snd m)
      | None \<Rightarrow> (case s of [] \<Rightarrow> [] | x # xs \<Rightarrow> x # sub_from r rp False xs))"
  by pat_completeness auto
termination
proof (relation "measure (\<lambda>(r, rp, adv, s). 2 * length s + (if adv then 0 else 1))")
  show "wf (measure (\<lambda>(r, rp, adv, s). 2 * length s + (if adv then 0 else 1)))"
    by simp
next
  fix r :: regex and rp :: "ritem list" and adv :: bool and s :: ustr and m
  assume fm: "first_match adv r s = Some m"
  show "((r, rp, length (snd m) = length s, snd m), (r, rp, adv, s))
          \<in> measure (\<lambda>(r, rp, adv, s). 2 * length s + (if adv then 0 else 1))"
    using first_match_length[OF fm] first_match_advances[of r s m] fm
    by (cases adv) auto
next
  fix r :: regex and rp :: "ritem list" and adv :: bool and s :: ustr and x xs
  assume "s = x # xs"
  then show "((r, rp, False, xs), (r, rp, adv, s))
          \<in> measure (\<lambda>(r, rp, adv, s). 2 * length s + (if adv then 0 else 1))"
    by simp
qed

declare sub_from.simps [simp del]

definition re_sub :: "regex \<Rightarrow> ritem list \<Rightarrow> ustr \<Rightarrow> ustr" where
  "re_sub r rp s = sub_from r rp False s"

section \<open>The constants of \<^verbatim>\<open>app.py\<close>\<close>

text \<open>The three section markers (risk level, risk point, feeding advice), in brackets U+3010, U+3011.\<close>

definition RISK_LEVEL :: ustr where
  "RISK_LEVEL = [12304, 39118, 38505, 31561, 32423, 12305]"

definition RISK_POINT :: ustr where
  "RISK_POINT = [12304, 39118, 38505, 28857, 12305]"

definition FEEDING_ADVICE :: ustr where
  "FEEDING_ADVICE = [12304, 21890, 20859, 24314, 35758, 12305]"

text \<open>The full-width colon U+FF1A, the ASCII colon and the newline.\<close>

definition FWCOLON :: nat where "FWCOLON = 65306"
definition COLON :: nat where "COLON = 58"
definition NL :: nat where "NL = 10"

text \<open>\<^verbatim>\<open>(?:thinking|reasoning|redacted)\<close> under \<^verbatim>\<open>re.IGNORECASE\<close>\<close>

definition KEYWORD :: regex where
  "KEYWORD = Alt (CharsI [116, 104, 105, 110, 107, 105, 110, 103])
              (Alt (CharsI [114, 101, 97, 115, 111, 110, 105, 110, 103])
                   (CharsI [114, 101, 100, 97, 99, 116, 101, 100]))"

text \<open>
  The paired-tag pattern (\<^verbatim>\<open>DOTALL | IGNORECASE\<close>):
  \<^verbatim>\<open><[^>]*(?:thinking|reasoning|redacted)[^>]*>.*?</[^>]*(?:thinking|reasoning|redacted)[^>]*>\<close>
\<close>

definition PAIRED_TAG :: regex where
  "PAIRED_TAG = seqs [CharsI [60], Rep (CNot 62) 0, KEYWORD, Rep (CNot 62) 0, CharsI [62],
                      RepLazy CAny,
                      CharsI [60, 47], Rep (CNot 62) 0, KEYWORD, Rep (CNot 62) 0, CharsI [62]]"

text \<open>
  The single-tag pattern (\<^verbatim>\<open>IGNORECASE\<close>):
  \<^verbatim>\<open><[^>]*(?:thinking|reasoning|redacted)[^>]*/?>\<close>
\<close>

definition SINGLE_TAG :: regex where
  "SINGLE_TAG = seqs [CharsI [60], Rep (CNot 62) 0, KEYWORD, Rep (CNot 62) 0,
                      Opt (CharsI [47]), CharsI [62]]"

text \<open>
  The labelled-section pattern (\<^verbatim>\<open>DOTALL | IGNORECASE\<close>): a four-character label, one
  of the two colons, then lazily anything up to the next U+3010 or \<^verbatim>\<open>$\<close>.
  The two labels are "thinking process" and "reasoning process".
\<close>

definition LABELLED :: "ustr \<Rightarrow> regex" where
  "LABELLED label = seqs [CharsI label, Cls (CIn [FWCOLON, COLON]), RepLazy CAny,
                          Ahead (Alt (CharsI [12304]) Eos)]"

definition THINKING_LABEL :: ustr where
  "THINKING_LABEL = [24605, 32771, 36807, 31243]"

definition REASONING_LABEL :: ustr where
  "REASONING_LABEL = [25512, 29702, 36807, 31243]"

section \<open>\<^verbatim>\<open>filter_thinking_content\<close>\<close>

definition filter_thinking_content :: "ustr \<Rightarrow> ustr" where
  "filter_thinking_content content =
     (if content = [] then content
      else re_sub SINGLE_TAG [] (re_sub PAIRED_TAG [] content))"

section \<open>\<^verbatim>\<open>format_ai_response\<close>\<close>

text \<open>Step 1: marker, ASCII colon, \<^verbatim>\<open>\s*\<close>; replaced by marker and full-width colon.\<close>

definition MARKER_ASCII_COLON :: "ustr \<Rightarrow> regex" where
  "MARKER_ASCII_COLON marker = seqs [Chars marker, Chars [COLON], Rep CSpace 0]"

text \<open>
  Step 2: first marker, an optional colon, lazily captured text free of U+3010, second
  marker; replaced by first marker, full-width colon, the captured text, two newlines
  and the second marker.
\<close>

definition MARKER_TO_MARKER :: "ustr \<Rightarrow> ustr \<Rightarrow> regex" where
  "MARKER_TO_MARKER m1 m2 =
     seqs [Chars m1, Opt (Cls (CIn [COLON, FWCOLON])), Group (RepLazy (CNot 12304)), Chars m2]"

definition separate :: "ustr \<Rightarrow> ustr \<Rightarrow> ustr \<Rightarrow> ustr" where
  "separate m1 m2 text =
     re_sub (MARKER_TO_MARKER m1 m2) [RLit (m1 @ [FWCOLON]), RGroup, RLit ([NL, NL] @ m2)] text"

text \<open>Step 4: marker, \<^verbatim>\<open>\s*\<close>, one of the two colons, \<^verbatim>\<open>\s*\<close>.\<close>

definition MARKER_COLON :: "ustr \<Rightarrow> regex" where
  "MARKER_COLON marker =
     seqs [Chars marker, Rep CSpace 0, Cls (CIn [COLON, FWCOLON]), Rep CSpace 0]"

text \<open>On a header line: marker, \<^verbatim>\<open>\s*\<close>, an optional colon, \<^verbatim>\<open>\s*\<close>.\<close>

definition MARKER_OPT_COLON :: "ustr \<Rightarrow> regex" where
  "MARKER_OPT_COLON marker =
     seqs [Chars marker, Rep CSpace 0, Opt (Cls (CIn [COLON, FWCOLON])), Rep CSpace 0]"

definition set_colon :: "regex \<Rightarrow> ustr \<Rightarrow> ustr \<Rightarrow> ustr" where
  "set_colon r marker text = re_sub r [RLit (marker @ [FWCOLON])] text"

definition is_header :: "ustr \<Rightarrow> bool" where
  "is_header line \<longleftrightarrow>
     str_in RISK_LEVEL line \<or> str_in RISK_POINT line \<or> str_in FEEDING_ADVICE line"

definition header_line :: "ustr \<Rightarrow> ustr" where
  "header_line line =
     set_colon (MARKER_OPT_COLON FEEDING_ADVICE) FEEDING_ADVICE
       (set_colon (MARKER_OPT_COLON RISK_POINT) RISK_POINT
         (set_colon (MARKER_OPT_COLON RISK_LEVEL) RISK_LEVEL line))"

text \<open>
  Step 5, the loop over the lines, with its two lists \<^verbatim>\<open>formatted_lines\<close> and
  \<^verbatim>\<open>current_section\<close>; at the end of the lines the open section is flushed.
\<close>

fun segment :: "ustr list \<Rightarrow> ustr list \<Rightarrow> ustr list \<Rightarrow> ustr list" where
  "segment formatted_lines current_section [] =
     (if current_section \<noteq> [] then formatted_lines @ current_section else formatted_lines)"
| "segment formatted_lines current_section (l # ls) =
     (let line = strip l in
      if line = [] then segment formatted_lines current_section ls
      else if is_header line then
        segment (if current_section \<noteq> [] then formatted_lines @ current_section @ [[]]
                 else formatted_lines)
                [header_line line] ls
      else if current_section \<noteq> [] then segment formatted_lines (current_section @ [line]) ls
      else segment (formatted_lines @ [line]) current_section ls)"

text \<open>Step 6: \<^verbatim>\<open>\n{3,}\<close> replaced by two newlines.\<close>

definition collapse :: "ustr \<Rightarrow> ustr" where
  "collapse text = re_sub (Rep (CIn [NL]) 3) [RLit [NL, NL]] text"

definition strip_thinking :: "ustr \<Rightarrow> ustr" where
  "strip_thinking text =
     re_sub (LABELLED REASONING_LABEL) []
       (re_sub (LABELLED THINKING_LABEL) []
         (re_sub SINGLE_TAG [] (re_sub PAIRED_TAG [] text)))"

definition normalise_markers :: "ustr \<Rightarrow> ustr" where
  "normalise_markers text =
     (let t1 = set_colon (MARKER_ASCII_COLON FEEDING_ADVICE) FEEDING_ADVICE
                 (set_colon (MARKER_ASCII_COLON RISK_POINT) RISK_POINT
                   (set_colon (MARKER_ASCII_COLON RISK_LEVEL) RISK_LEVEL text));
          t2 = separate RISK_POINT FEEDING_ADVICE (separate RISK_LEVEL RISK_POINT t1)
      in set_colon (MARKER_COLON FEEDING_ADVICE) FEEDING_ADVICE
           (set_colon (MARKER_COLON RISK_POINT) RISK_POINT
             (set_colon (MARKER_COLON RISK_LEVEL) RISK_LEVEL t2)))"

definition format_ai_response :: "ustr \<Rightarrow> ustr" where
  "format_ai_response text =
     (if text = [] then text
      else strip (collapse (join [NL]
             (segment [] [] (split_on NL (normalise_markers (strip_thinking (strip text))))))))"

section \<open>\<^verbatim>\<open>get_rag_info\<close>\<close>

text \<open>
  \<^verbatim>\<open>PET_KNOWLEDGE\<close>: ten entries (keyword, fact); a Python dictionary enumerates them
  in the order they are written. The keywords are chocolate, grape, onion, xylitol,
  avocado, raw egg, coffee, tea, watermelon and apple, in Chinese.
\<close>

definition PET_KNOWLEDGE :: "(ustr \<times> ustr) list" where
  "PET_KNOWLEDGE =
   [([24039, 20811, 21147],
     [12304, 39640, 21361, 39044, 35686, 12305, 21547, 21487, 21487, 30897, 65292, 23545, 23456,
      29289, 26377, 27602, 65292, 21058, 37327, 22823, 26377, 29983, 21629, 21361, 38505, 12290]),
    ([33889, 33796],
     [12304, 39640, 21361, 39044, 35686, 12305, 21487, 33021, 23548, 33268, 32958, 34928, 31469,
      65292, 23569, 37327, 20063, 21361, 38505, 12290, 24314, 35758, 31435, 21363, 23601, 21307,
      12290]),
    ([27915, 33905],
     [12304, 39640, 21361, 39044, 35686, 12305, 30772, 22351, 32418, 32454, 32990, 65292, 24341,
      36215, 36139, 34880, 65292, 21058, 37327, 22823, 26377, 29983, 21629, 21361, 38505, 12290]),
    ([26408, 31958, 37255],
     [12304, 39640, 21361, 39044, 35686, 12305, 23548, 33268, 33008, 23707, 32032, 22823, 37327,
      20998, 27852, 65292, 24341, 36215, 20302, 34880, 31958, 12289, 32925, 34928, 31469, 65292,
      23545, 23456, 29289, 26497, 24230, 21361, 38505, 12290]),
    ([29275, 27833, 26524],
     [12304, 20013, 21361, 39044, 35686, 12305, 21547, 27602, 24615, 29289, 36136, 112, 101, 114,
      115, 105, 110, 65292, 34429, 28982, 29399, 29483, 21453, 24212, 36739, 23567, 65292, 20294,
      19981, 24314, 35758, 39135, 29992, 12290]),
    ([29983, 40481, 34507],
     [12304, 20013, 21361, 39044, 35686, 12305, 21487, 33021, 21547, 26377, 27801, 38376, 27663,
      33740, 65292, 24212, 29038, 29087, 65292, 38271, 26399, 39135, 29992, 29983, 34507, 30333,
      20250, 24433, 21709, 29983, 29289, 32032, 21560, 25910, 12290]),
    ([21654, 21857],
     [12304, 39640, 21361, 39044, 35686, 12305, 21547, 21654, 21857, 22240, 65292, 21487, 33021,
      24341, 36215, 20013, 27602, 12290]),
    ([33590],
     [12304, 39640, 21361, 39044, 35686, 12305, 21547, 21654, 21857, 22240, 12290]),
    ([35199, 29916],
     [12304, 20302, 39118, 38505, 12305, 23569, 37327, 26524, 32905, 23433, 20840, 65292, 20294,
      31181, 23376, 21644, 29916, 30382, 19981, 23452, 39135, 29992, 65292, 31958, 23615, 30149,
      23456, 29289, 38656, 35880, 24910, 12290]),
    ([33529, 26524],
     [12304, 20302, 39118, 38505, 12305, 26524, 32905, 23433, 20840, 65292, 20294, 26524, 26680,
      21547, 26377, 27696, 21270, 29289, 65292, 24517, 39035, 21435, 38500, 12290])]"

text \<open>The prefix of the returned context: a newline, "reference" and a full-width colon.\<close>

definition REFERENCE :: ustr where
  "REFERENCE = [10, 21442, 32771, 65306]"

text \<open>One retrieved fact: the keyword in brackets U+3010, U+3011, then the fact.\<close>

definition fact_entry :: "ustr \<Rightarrow> ustr \<Rightarrow> ustr" where
  "fact_entry item fact_text = [12304] @ item @ [12305] @ fact_text"

text \<open>
  The loop over \<^verbatim>\<open>PET_KNOWLEDGE.items()\<close> with its \<^verbatim>\<open>break\<close>; the result is the list
  \<^verbatim>\<open>retrieved_facts\<close>.
\<close>

fun rag_loop :: "ustr \<Rightarrow> (ustr \<times> ustr) list \<Rightarrow> ustr list \<Rightarrow> ustr list" where
  "rag_loop lower_question [] retrieved_facts = retrieved_facts"
| "rag_loop lower_question ((item, fact_text) # rest) retrieved_facts =
     (if str_in item lower_question then retrieved_facts @ [fact_entry item fact_text]
      else rag_loop lower_question rest retrieved_facts)"

text \<open>
  \<^verbatim>\<open>str.lower\<close> is the Unicode lower-casing of the Python runtime; it is taken as the
  parameter \<open>lower\<close>.
\<close>

definition get_rag_info :: "(ustr \<Rightarrow> ustr) \<Rightarrow> ustr \<Rightarrow> ustr" where
  "get_rag_info lower question =
     (let retrieved_facts = rag_loop (lower question) PET_KNOWLEDGE []
      in if retrieved_facts \<noteq> [] then REFERENCE @ retrieved_facts ! 0 else [])"

section \<open>\<^verbatim>\<open>build_system_prompt\<close>\<close>

record pet_profile =
  name :: "ustr option"
  pet_type :: "ustr option"
  breed :: "ustr option"
  allergies :: "ustr list option"

text \<open>The fixed instruction the prompt starts with.\<close>

definition BASE_PROMPT :: ustr where
  "BASE_PROMPT =
   [20320, 26159, 23456, 29289, 33829, 20859, 19987, 23478, 12290, 31616, 35201, 22238, 31572,
    12290, 10, 37325, 35201, 65306, 21482, 36755, 20986, 26368, 32456, 31572, 26696, 65292, 19981,
    35201, 36755, 20986, 24605, 32771, 36807, 31243, 12289, 25512, 29702, 36807, 31243, 25110,
    20219, 20309, 26631, 31614, 65288, 22914, 60, 116, 104, 105, 110, 107, 105, 110, 103, 62,
    12289, 60, 114, 101, 97, 115, 111, 110, 105, 110, 103, 62, 31561, 65289, 12290]"

text \<open>
  The allergy clause is: a newline and "allergens" with a full-width colon, the pet's
  name, "to", the allergy terms joined by U+3001, and "allergic. If the food contains an
  allergen, mark it as high-risk warning, do not feed."
\<close>

definition ALLERGEN_HEAD :: ustr where
  "ALLERGEN_HEAD = [10, 36807, 25935, 21407, 65306]"

definition ALLERGIC_TO :: ustr where
  "ALLERGIC_TO = [23545]"

definition ALLERGEN_TAIL :: ustr where
  "ALLERGEN_TAIL =
   [36807, 25935, 12290, 22914, 39135, 29289, 21547, 36807, 25935, 21407, 65292, 26631, 35760,
    12304, 39640, 21361, 39044, 35686, 12305, 65292, 31105, 27490, 21890, 39135, 12290]"

text \<open>The default name, "this pet".\<close>

definition DEFAULT_NAME :: ustr where
  "DEFAULT_NAME = [35813, 23456, 29289]"

definition ENUM_COMMA :: ustr where
  "ENUM_COMMA = [12289]"

text \<open>The output-format directive the prompt ends with.\<close>

definition FORMAT_DIRECTIVE :: ustr where
  "FORMAT_DIRECTIVE =
   [10, 26684, 24335, 65306, 10, 12304, 39118, 38505, 31561, 32423, 12305, 65306, 91, 31561,
    32423, 93, 10, 12304, 39118, 38505, 28857, 12305, 65306, 91, 39118, 38505, 93, 10, 12304,
    21890, 20859, 24314, 35758, 12305, 65306, 91, 24314, 35758, 93]"

text \<open>\<^verbatim>\<open>pet_profile.name or DEFAULT\<close>: an absent and an empty name give the default.\<close>

definition pet_name_of :: "pet_profile \<Rightarrow> ustr" where
  "pet_name_of p = (case name p of None \<Rightarrow> DEFAULT_NAME
                    | Some n \<Rightarrow> if n = [] then DEFAULT_NAME else n)"

definition has_allergies :: "pet_profile option \<Rightarrow> bool" where
  "has_allergies pet_profile \<longleftrightarrow>
     (case pet_profile of None \<Rightarrow> False
      | Some p \<Rightarrow> (case allergies p of None \<Rightarrow> False | Some al \<Rightarrow> al \<noteq> [] \<and> length al > 0))"

definition build_system_prompt :: "pet_profile option \<Rightarrow> ustr" where
  "build_system_prompt pet_profile =
     (let base_prompt = BASE_PROMPT;
          base_prompt =
            (if has_allergies pet_profile then
               (let p = the pet_profile;
                    pet_name = pet_name_of p;
                    allergies_str = join ENUM_COMMA (the (allergies p))
                in base_prompt @ ALLERGEN_HEAD @ pet_name @ ALLERGIC_TO @ allergies_str
                     @ ALLERGEN_TAIL)
             else base_prompt)
      in base_prompt @ FORMAT_DIRECTIVE)"

section \<open>\<^verbatim>\<open>stream_zhipu_ai_response\<close>\<close>

text \<open>
  The events the generator yields. On the wire each is one line \<^verbatim>\<open>data: <json>\<close>
  followed by an empty line; the JSON object has the single key \<^verbatim>\<open>status\<close>,
  \<^verbatim>\<open>content\<close>, \<^verbatim>\<open>formatted\<close>, \<^verbatim>\<open>done\<close> or \<^verbatim>\<open>error\<close>. The three error messages
  are fixed texts.
\<close>

datatype error_message = NotConfigured | ClientInitFailed | ServiceUnavailable

datatype event = Status | Content ustr | Formatted ustr | Done | Error error_message

text \<open>
  One chunk of the upstream stream, after the source's dictionary-or-attribute access:
  a list of choices, each with an optional delta, which has an optional \<^verbatim>\<open>content\<close> and
  an optional \<^verbatim>\<open>reasoning_content\<close>.
\<close>

datatype delta = Delta (content: "ustr option") (reasoning_content: "ustr option")

datatype choice = Choice (delta: "delta option")

datatype chunk = Chunk (choices: "choice list")

text \<open>
  The class of what the upstream raises, where it raises: an instance of
  \<^verbatim>\<open>Exception\<close>, which the two handlers of the generator (both \<^verbatim>\<open>except Exception\<close>)
  catch, or another \<^verbatim>\<open>BaseException\<close> (\<^verbatim>\<open>KeyboardInterrupt\<close>, \<^verbatim>\<open>SystemExit\<close>,
  \<^verbatim>\<open>GeneratorExit\<close>, a cancellation), which they do not catch.
\<close>

datatype raised = WithinException | OutsideException

text \<open>
  What the upstream does during one call of the generator: whether constructing the
  client returns or raises, whether \<^verbatim>\<open>chat.completions.create\<close> returns or raises, the
  chunks the stream delivers, whether the iteration then ends or raises (an
  exception while a chunk is processed ends the run in the same way), and the class of
  what is raised. A run has at most one raise, since the first one ends it.
\<close>

record upstream =
  client_init_ok :: bool
  create_ok :: bool
  chunks :: "chunk list"
  stream_ok :: bool
  raised_class :: raised

text \<open>
  What one run of the generator leaves behind: the events in the order they were
  yielded, the list \<^verbatim>\<open>full_content_buffer\<close>, the number of client constructions
  attempted, the (system prompt, user prompt) of every \<^verbatim>\<open>chat.completions.create\<close>
  call, whether the module-level client is set afterwards, and whether the generator
  ended by propagating what the upstream raised instead of returning.
\<close>

record run =
  events :: "event list"
  final_buffer :: "ustr list"
  constructions :: nat
  create_calls :: "(ustr \<times> ustr) list"
  client_set :: bool
  propagated :: bool

text \<open>The content of a chunk: that of the delta of its first choice.\<close>

definition chunk_content :: "chunk \<Rightarrow> ustr option" where
  "chunk_content ch =
     (case choices ch of [] \<Rightarrow> None
      | c # cs \<Rightarrow> (case delta c of None \<Rightarrow> None | Some d \<Rightarrow> content d))"

text \<open>
  The loop over the stream, from a given \<^verbatim>\<open>full_content_buffer\<close>: the content events
  yielded and the buffer at the end.
\<close>

fun stream_loop :: "ustr list \<Rightarrow> chunk list \<Rightarrow> event list \<times> ustr list" where
  "stream_loop full_content_buffer [] = ([], full_content_buffer)"
| "stream_loop full_content_buffer (ch # chs) =
     (case chunk_content ch of
        None \<Rightarrow> stream_loop full_content_buffer chs
      | Some c \<Rightarrow>
          if c = [] then stream_loop full_content_buffer chs
          else (let filtered_content = filter_thinking_content c in
                if filtered_content = [] then stream_loop full_content_buffer chs
                else (let (evs, buf) = stream_loop (full_content_buffer @ [c]) chs
                      in (Content filtered_content # evs, buf))))"

text \<open>After the stream has ended: the formatted event, if there is one.\<close>

definition finalize :: "ustr list \<Rightarrow> event list" where
  "finalize full_content_buffer =
     (if full_content_buffer \<noteq> [] then
        (let full_text = concat full_content_buffer;
             formatted_text = format_ai_response full_text
         in if formatted_text \<noteq> full_text then [Formatted formatted_text] else [])
      else [])"

text \<open>
  The generator. A raise of the client construction is handled by the first handler, a
  raise of \<^verbatim>\<open>chat.completions.create\<close> or of the iteration by the second; each yields
  its error event when what is raised is an instance of \<^verbatim>\<open>Exception\<close>. Anything else
  passes through the handler: the generator ends there, having yielded no further event.
\<close>

definition stream_zhipu_ai_response ::
  "(ustr \<Rightarrow> ustr) \<Rightarrow> ustr option \<Rightarrow> bool \<Rightarrow> upstream \<Rightarrow> ustr \<Rightarrow> pet_profile option \<Rightarrow> run" where
  "stream_zhipu_ai_response lower api_key client up question pet_profile =
     (if api_key = None \<or> api_key = Some [] then
        \<lparr>events = [Error NotConfigured], final_buffer = [], constructions = 0,
         create_calls = [], client_set = client, propagated = False\<rparr>
      else if \<not> client \<and> \<not> client_init_ok up then
        (if raised_class up = WithinException then
           \<lparr>events = [Status, Error ClientInitFailed], final_buffer = [],
            constructions = 1, create_calls = [], client_set = False, propagated = False\<rparr>
         else
           \<lparr>events = [Status], final_buffer = [],
            constructions = 1, create_calls = [], client_set = False, propagated = True\<rparr>)
      else
        (let n = (if client then 0 else 1);
             rag_context = get_rag_info lower question;
             system_prompt = build_system_prompt pet_profile;
             full_user_prompt = (if rag_context \<noteq> [] then question @ rag_context else question);
             call = (system_prompt, full_user_prompt)
         in if \<not> create_ok up then
              (if raised_class up = WithinException then
                 \<lparr>events = [Status, Error ServiceUnavailable], final_buffer = [],
                  constructions = n, create_calls = [call], client_set = True,
                  propagated = False\<rparr>
               else
                 \<lparr>events = [Status], final_buffer = [],
                  constructions = n, create_calls = [call], client_set = True,
                  propagated = True\<rparr>)
            else
              (let (evs, buf) = stream_loop [] (chunks up)
               in if \<not> stream_ok up then
                    (if raised_class up = WithinException then
                       \<lparr>events = Status # evs @ [Error ServiceUnavailable],
                        final_buffer = buf, constructions = n, create_calls = [call],
                        client_set = True, propagated = False\<rparr>
                     else
                       \<lparr>events = Status # evs,
                        final_buffer = buf, constructions = n, create_calls = [call],
                        client_set = True, propagated = True\<rparr>)
                  else
                    \<lparr>events = Status # evs @ finalize buf @ [Done],
                     final_buffer = buf, constructions = n, create_calls = [call],
                     client_set = True, propagated = False\<rparr>)))"

section \<open>Notions used by the properties\<close>

text \<open>The raw content fragments of a stream, in arrival order.\<close>

definition fragments :: "chunk list \<Rightarrow> ustr list" where
  "fragments chs = List.map_filter chunk_content chs"

text \<open>A fragment that is relayed: it is not empty, and not empty after filtering.\<close>

definition relayed :: "ustr \<Rightarrow> bool" where
  "relayed c \<longleftrightarrow> c \<noteq> [] \<and> filter_thinking_content c \<noteq> []"

text \<open>
  The run gets as far as iterating the stream: the key is set, the client exists or
  its construction succeeds, and \<^verbatim>\<open>chat.completions.create\<close> returns.
\<close>

definition reaches_stream :: "ustr option \<Rightarrow> bool \<Rightarrow> upstream \<Rightarrow> bool" where
  "reaches_stream api_key client up \<longleftrightarrow>
     api_key \<noteq> None \<and> api_key \<noteq> Some [] \<and> (client \<or> client_init_ok up) \<and> create_ok up"

text \<open>
  A raise that the handlers do not catch reaches the generator: the key is set, one of
  the upstream calls that the run gets to raises, and what it raises lies outside
  \<^verbatim>\<open>Exception\<close>.
\<close>

definition raises_uncaught :: "ustr option \<Rightarrow> bool \<Rightarrow> upstream \<Rightarrow> bool" where
  "raises_uncaught api_key client up \<longleftrightarrow>
     api_key \<noteq> None \<and> api_key \<noteq> Some [] \<and> raised_class up = OutsideException \<and>
     ((\<not> client \<and> \<not> client_init_ok up) \<or> \<not> create_ok up \<or> \<not> stream_ok up)"

text \<open>The terminal events.\<close>

fun is_terminal :: "event \<Rightarrow> bool" where
  "is_terminal Done = True"
| "is_terminal (Error m) = True"
| "is_terminal e = False"

text \<open>
  The language of a pattern: \<open>matches r s t\<close> when \<open>r\<close> can match at the start of \<open>s\<close> and
  leave \<open>t\<close>.
\<close>

definition matches :: "regex \<Rightarrow> ustr \<Rightarrow> ustr \<Rightarrow> bool" where
  "matches r s t \<longleftrightarrow> t \<in> snd ` set (rmatch r s)"

text \<open>The characters \<^verbatim>\<open>>\<close> and \<^verbatim>\<open><\<close>.\<close>

definition GT :: nat where "GT = 62"
definition LT :: nat where "LT = 60"

text \<open>
  A denylisted marker, in the words of the specification: a tag-like construct whose
  name matches, without regard to case, one of thinking, reasoning, redacted. That is
  \<^verbatim>\<open><\<close>, then text free of \<^verbatim>\<open>>\<close> in which one of the three words occurs, then
  \<^verbatim>\<open>>\<close>. \<open>has_marker s\<close> says that \<open>s\<close> contains one.
\<close>

definition ci_prefix :: "ustr \<Rightarrow> ustr \<Rightarrow> bool" where
  "ci_prefix p s \<longleftrightarrow> length p \<le> length s \<and> list_all2 ieq p (take (length p) s)"

definition kw_prefix :: "ustr \<Rightarrow> bool" where
  "kw_prefix s \<longleftrightarrow>
     ci_prefix [116, 104, 105, 110, 107, 105, 110, 103] s \<or>
     ci_prefix [114, 101, 97, 115, 111, 110, 105, 110, 103] s \<or>
     ci_prefix [114, 101, 100, 97, 99, 116, 101, 100] s"

fun kw_in :: "ustr \<Rightarrow> bool" where
  "kw_in [] = False"
| "kw_in (x # xs) = (kw_prefix (x # xs) \<or> kw_in xs)"

definition tag_at :: "ustr \<Rightarrow> bool" where
  "tag_at s \<longleftrightarrow>
     (case s of [] \<Rightarrow> False
      | x # xs \<Rightarrow> x = LT \<and> GT \<in> set xs \<and> kw_in (takeWhile (\<lambda>c. c \<noteq> GT) xs))"

fun has_marker :: "ustr \<Rightarrow> bool" where
  "has_marker [] = False"
| "has_marker (x # xs) = (tag_at (x # xs) \<or> has_marker xs)"

text \<open>A text in which none of the three section markers occurs.\<close>

definition marker_free :: "ustr \<Rightarrow> bool" where
  "marker_free s \<longleftrightarrow>
     \<not> str_in RISK_LEVEL s \<and> \<not> str_in RISK_POINT s \<and> \<not> str_in FEEDING_ADVICE s"

text \<open>
  The lines of a text, each with its outer whitespace removed, without the lines that
  are then empty.
\<close>

definition trimmed_lines :: "ustr \<Rightarrow> ustr list" where
  "trimmed_lines s = filter (\<lambda>l. l \<noteq> []) (map strip (split_on NL s))"

text \<open>
  A line of the output: not empty, without a newline, and with no whitespace at either
  end. A plain line is such a line in which no section marker occurs. A section is a
  first line followed by plain lines.
\<close>

definition good :: "ustr \<Rightarrow> bool" where
  "good l \<longleftrightarrow> l \<noteq> [] \<and> NL \<notin> set l \<and> \<not> isspace (hd l) \<and> \<not> isspace (last l)"

definition plain :: "ustr \<Rightarrow> bool" where
  "plain l \<longleftrightarrow> good l \<and> \<not> is_header l"

definition sec_ok :: "ustr list \<Rightarrow> bool" where
  "sec_ok S \<longleftrightarrow> S \<noteq> [] \<and> good (hd S) \<and> (\<forall>l \<in> set (tl S). plain l)"

text \<open>
  The lines of consecutive sections, with one empty line between each section and the
  next; and the lists of lines in which every empty line stands alone between two
  non-empty lines.
\<close>

fun blocks :: "ustr list list \<Rightarrow> ustr list" where
  "blocks [] = []"
| "blocks [S] = S"
| "blocks (S # S' # r) = S @ [[]] @ blocks (S' # r)"

fun ok_lines :: "ustr list \<Rightarrow> bool" where
  "ok_lines [] = True"
| "ok_lines [l] = good l"
| "ok_lines (l # m # r) = (good l \<and> (if m = [] then r \<noteq> [] \<and> ok_lines r else ok_lines (m # r)))"

text \<open>The number of newlines a string starts with.\<close>

definition lead :: "ustr \<Rightarrow> nat" where
  "lead s = length (takeWhile (\<lambda>x. x = NL) s)"

text \<open>Sample inputs: a key, a question ("tea"), and one-fragment chunks.\<close>

definition SAMPLE_KEY :: "ustr option" where
  "SAMPLE_KEY = Some [115, 107]"

definition SAMPLE_QUESTION :: ustr where
  "SAMPLE_QUESTION = [33590]"

definition content_chunk :: "ustr \<Rightarrow> chunk" where
  "content_chunk c = Chunk [Choice (Some (Delta (Some c) None))]"

text \<open>The fragment \<^verbatim>\<open><thinking/>\<close> and the fragment \<^verbatim>\<open>ok\<close>.\<close>

definition THINKING_TAG :: ustr where
  "THINKING_TAG = [60, 116, 104, 105, 110, 107, 105, 110, 103, 47, 62]"

definition OK_TEXT :: ustr where
  "OK_TEXT = [111, 107]"

definition tag_then_ok :: upstream where
  "tag_then_ok = \<lparr>client_init_ok = True, create_ok = True,
                  chunks = [content_chunk THINKING_TAG, content_chunk OK_TEXT],
                  stream_ok = True, raised_class = WithinException\<rparr>"

text \<open>A stream of the single fragment \<^verbatim>\<open>a\<close> followed by a space.\<close>

definition a_space :: upstream where
  "a_space = \<lparr>client_init_ok = True, create_ok = True,
              chunks = [content_chunk [97, 32]], stream_ok = True,
              raised_class = WithinException\<rparr>"

text \<open>
  A stream that delivers the fragment \<^verbatim>\<open>ok\<close> and then raises outside
  \<^verbatim>\<open>Exception\<close> (an interrupt or a cancellation).
\<close>

definition ok_then_interrupt :: upstream where
  "ok_then_interrupt = \<lparr>client_init_ok = True, create_ok = True,
                        chunks = [content_chunk OK_TEXT], stream_ok = False,
                        raised_class = OutsideException\<rparr>"

text \<open>
  The answer of three sections on one line: each marker is followed by a full-width colon
  and a short text ("high", "chocolate poisoning", "do not feed").
\<close>

definition SAMPLE_ANSWER :: ustr where
  "SAMPLE_ANSWER =
     [12304, 39118, 38505, 31561, 32423, 12305, 65306, 39640,
      12304, 39118, 38505, 28857, 12305, 65306, 24039, 20811, 21147, 20013, 27602,
      12304, 21890, 20859, 24314, 35758, 12305, 65306, 31105, 27490, 21890, 39135]"

text \<open>The text \<^verbatim>\<open><b>thinking</b>\<close>: tags and a denylisted word, but no denylisted tag.\<close>

definition BOLD_TEXT :: ustr where
  "BOLD_TEXT = [60, 98, 62, 116, 104, 105, 110, 107, 105, 110, 103, 60, 47, 98, 62]"

text \<open>
  The text \<^verbatim>\<open><thinking/>a\<close>, two newlines, \<^verbatim>\<open>b\<close>: no section marker, a thinking tag
  and a blank line.
\<close>

definition TAGGED_LINES :: ustr where
  "TAGGED_LINES = [60, 116, 104, 105, 110, 107, 105, 110, 103, 47, 62, 97, 10, 10, 98]"

text \<open>A text with outer spaces and four newlines between \<^verbatim>\<open>a\<close> and \<^verbatim>\<open>b\<close>.\<close>

definition SPACED_TEXT :: ustr where
  "SPACED_TEXT = [32, 97, 10, 10, 10, 10, 98, 32]"

section \<open>Evaluation\<close>

lemmas regex_eval =
  re_sub_def sub_from.simps first_match_def isspace_def ieq_def strip_def Let_def
  FWCOLON_def COLON_def NL_def KEYWORD_def PAIRED_TAG_def SINGLE_TAG_def LABELLED_def
  THINKING_LABEL_def REASONING_LABEL_def MARKER_ASCII_COLON_def MARKER_TO_MARKER_def
  MARKER_COLON_def MARKER_OPT_COLON_def RISK_LEVEL_def RISK_POINT_def FEEDING_ADVICE_def

lemmas format_eval =
  format_ai_response_def strip_thinking_def normalise_markers_def collapse_def
  header_line_def is_header_def set_colon_def separate_def

lemma filter_thinking_tag: "filter_thinking_content THINKING_TAG = []"
  by (simp add: filter_thinking_content_def THINKING_TAG_def regex_eval)

lemma filter_ok_text: "filter_thinking_content OK_TEXT = OK_TEXT"
  by (simp add: filter_thinking_content_def OK_TEXT_def regex_eval)

lemma sample_texts_nonempty: "OK_TEXT \<noteq> []" "THINKING_TAG \<noteq> []" "OK_TEXT \<noteq> THINKING_TAG"
  by (simp_all add: OK_TEXT_def THINKING_TAG_def)

lemma filter_a_space: "filter_thinking_content [97, 32] = [97, 32]"
  by (simp add: filter_thinking_content_def regex_eval)

lemma format_a_space: "format_ai_response [97, 32] = [97]"
  by (simp add: format_eval regex_eval)

lemma format_spaced_text: "format_ai_response SPACED_TEXT = [97, 10, 98]"
  by (simp add: SPACED_TEXT_def format_eval regex_eval)

lemma fragments_tag_then_ok: "fragments (chunks tag_then_ok) = [THINKING_TAG, OK_TEXT]"
  by (simp add: fragments_def tag_then_ok_def content_chunk_def chunk_content_def)

lemma fragments_ok_then_interrupt: "fragments (chunks ok_then_interrupt) = [OK_TEXT]"
  by (simp add: fragments_def ok_then_interrupt_def content_chunk_def chunk_content_def)

lemma fragments_a_space: "fragments (chunks a_space) = [[97, 32]]"
  by (simp add: fragments_def a_space_def content_chunk_def chunk_content_def)

section \<open>Substrings\<close>

lemma str_in_iff: "str_in p s \<longleftrightarrow> (\<exists>a b. s = a @ p @ b)"
proof (induction s)
  case Nil
  then show ?case by auto
next
  case (Cons x xs)
  show ?case
  proof
    assume "str_in p (x # xs)"
    then consider "prefix p (x # xs)" | "str_in p xs" by auto
    then show "\<exists>a b. x # xs = a @ p @ b"
    proof cases
      case 1
      then obtain b where "x # xs = p @ b" by (auto simp: prefix_def)
      then have "x # xs = [] @ p @ b" by simp
      then show ?thesis by blast
    next
      case 2
      with Cons.IH obtain a b where "xs = a @ p @ b" by auto
      then have "x # xs = (x # a) @ p @ b" by simp
      then show ?thesis by blast
    qed
  next
    assume "\<exists>a b. x # xs = a @ p @ b"
    then obtain a b where ab: "x # xs = a @ p @ b" by auto
    show "str_in p (x # xs)"
    proof (cases a)
      case Nil
      with ab have "prefix p (x # xs)" by (simp add: prefix_def)
      then show ?thesis by simp
    next
      case (Cons y ys)
      with ab have "xs = ys @ p @ b" by simp
      with Cons.IH have "str_in p xs" by blast
      then show ?thesis by simp
    qed
  qed
qed

lemma str_in_mid: "str_in p (a @ p @ b)"
  by (auto simp: str_in_iff)

lemma str_in_append_right: "str_in p s \<Longrightarrow> str_in p (a @ s @ b)"
proof -
  assume "str_in p s"
  then obtain u v where "s = u @ p @ v" by (auto simp: str_in_iff)
  then have "a @ s @ b = (a @ u) @ p @ (v @ b)" by simp
  then show ?thesis unfolding str_in_iff by blast
qed

lemma str_in_join: "a \<in> set al \<Longrightarrow> str_in a (join sep al)"
proof (induction sep al rule: join.induct)
  case (1 sep)
  then show ?case by simp
next
  case (2 sep x)
  then show ?case using str_in_mid[of a "[]" "[]"] by simp
next
  case (3 sep x y ys)
  show ?case
  proof (cases "a = x")
    case True
    then show ?thesis using str_in_mid[of x "[]" "sep @ join sep (y # ys)"] by simp
  next
    case False
    with 3 have "str_in a (join sep (y # ys))" by auto
    from str_in_append_right[OF this, of "x @ sep" "[]"] show ?thesis by simp
  qed
qed


section \<open>The knowledge lookup\<close>

lemma rag_loop_find:
  "rag_loop lq tbl [] =
     (case find (\<lambda>e. str_in (fst e) lq) tbl of None \<Rightarrow> []
      | Some e \<Rightarrow> [fact_entry (fst e) (snd e)])"
  by (induction tbl) auto


text \<open>
  C9. \<^verbatim>\<open>get_rag_info\<close> is a function of the question: the same question gives the same
  result. When the case-normalised question contains the keyword of entry \<open>i\<close> of the
  table and the keyword of no earlier entry, the result is the reference prefix followed
  by that keyword in brackets and its fact, whatever later keywords the question
  contains; when it contains no keyword of the table, the result is the empty string.
\<close>

theorem get_rag_info_first_match:
  "(\<forall>i < length PET_KNOWLEDGE.
      str_in (fst (PET_KNOWLEDGE ! i)) (lower question) \<and>
      (\<forall>j < i. \<not> str_in (fst (PET_KNOWLEDGE ! j)) (lower question)) \<longrightarrow>
      get_rag_info lower question
        = REFERENCE @ [12304] @ fst (PET_KNOWLEDGE ! i) @ [12305] @ snd (PET_KNOWLEDGE ! i)) \<and>
   ((\<forall>i < length PET_KNOWLEDGE. \<not> str_in (fst (PET_KNOWLEDGE ! i)) (lower question)) \<longrightarrow>
      get_rag_info lower question = [])"
proof (intro conjI allI impI)
  fix i
  assume i: "i < length PET_KNOWLEDGE"
    and hit: "str_in (fst (PET_KNOWLEDGE ! i)) (lower question) \<and>
              (\<forall>j < i. \<not> str_in (fst (PET_KNOWLEDGE ! j)) (lower question))"
  then have "find (\<lambda>e. str_in (fst e) (lower question)) PET_KNOWLEDGE = Some (PET_KNOWLEDGE ! i)"
    unfolding find_Some_iff by blast
  then show "get_rag_info lower question
        = REFERENCE @ [12304] @ fst (PET_KNOWLEDGE ! i) @ [12305] @ snd (PET_KNOWLEDGE ! i)"
    by (simp add: get_rag_info_def rag_loop_find fact_entry_def)
next
  assume "\<forall>i < length PET_KNOWLEDGE. \<not> str_in (fst (PET_KNOWLEDGE ! i)) (lower question)"
  then have "find (\<lambda>e. str_in (fst e) (lower question)) PET_KNOWLEDGE = None"
    unfolding find_None_iff by (auto simp: in_set_conv_nth)
  then show "get_rag_info lower question = []"
    by (simp add: get_rag_info_def rag_loop_find)
qed

theorem get_rag_info_first_match_witness:
  "str_in [33889, 33796] (id [33889, 33796, 21644, 24039, 20811, 21147]) \<and>
   str_in [24039, 20811, 21147] (id [33889, 33796, 21644, 24039, 20811, 21147]) \<and>
   get_rag_info id [33889, 33796, 21644, 24039, 20811, 21147]
     = REFERENCE @ [12304] @ [24039, 20811, 21147] @ [12305] @ snd (PET_KNOWLEDGE ! 0)"
  using get_rag_info_first_match[of id "[33889, 33796, 21644, 24039, 20811, 21147]",
          THEN conjunct1, rule_format, of 0]
  by (simp add: PET_KNOWLEDGE_def)


section \<open>The system prompt\<close>

lemma no_clause_in_fixed_prompt: "\<not> str_in ALLERGEN_HEAD (BASE_PROMPT @ FORMAT_DIRECTIVE)"
  by (simp add: ALLERGEN_HEAD_def BASE_PROMPT_def FORMAT_DIRECTIVE_def)


text \<open>
  C8. For a profile whose allergy list is not empty, the prompt contains every allergy
  term, the pet's name when there is one and the default name when there is none, and
  the head of the allergy clause. Without a profile, or with an absent or empty allergy
  list, the prompt is the base instruction followed by the format directive, and the
  head of the allergy clause does not occur in it.
\<close>

theorem prompt_allergy_clause:
  "(\<forall>p al. pet_profile = Some p \<and> allergies p = Some al \<and> al \<noteq> [] \<longrightarrow>
      (\<forall>a \<in> set al. str_in a (build_system_prompt pet_profile)) \<and>
      (\<forall>n. name p = Some n \<longrightarrow> str_in n (build_system_prompt pet_profile)) \<and>
      (name p = None \<longrightarrow> str_in DEFAULT_NAME (build_system_prompt pet_profile)) \<and>
      str_in ALLERGEN_HEAD (build_system_prompt pet_profile)) \<and>
   ((pet_profile = None \<or>
     (\<exists>p. pet_profile = Some p \<and> (allergies p = None \<or> allergies p = Some []))) \<longrightarrow>
      build_system_prompt pet_profile = BASE_PROMPT @ FORMAT_DIRECTIVE \<and>
      \<not> str_in ALLERGEN_HEAD (build_system_prompt pet_profile))"
proof (rule conjI)
  let ?out = "build_system_prompt pet_profile"
  show "\<forall>p al. pet_profile = Some p \<and> allergies p = Some al \<and> al \<noteq> [] \<longrightarrow>
      (\<forall>a \<in> set al. str_in a ?out) \<and>
      (\<forall>n. name p = Some n \<longrightarrow> str_in n ?out) \<and>
      (name p = None \<longrightarrow> str_in DEFAULT_NAME ?out) \<and>
      str_in ALLERGEN_HEAD ?out"
  proof (intro allI impI)
    fix p al
    assume h: "pet_profile = Some p \<and> allergies p = Some al \<and> al \<noteq> []"
    have out: "?out = BASE_PROMPT @ ALLERGEN_HEAD @ pet_name_of p @ ALLERGIC_TO
                       @ join ENUM_COMMA al @ ALLERGEN_TAIL @ FORMAT_DIRECTIVE"
      using h by (simp add: build_system_prompt_def has_allergies_def Let_def)
    have terms: "\<forall>a \<in> set al. str_in a ?out"
    proof
      fix a assume "a \<in> set al"
      then have "str_in a (join ENUM_COMMA al)" by (rule str_in_join)
      from str_in_append_right[OF this,
          of "BASE_PROMPT @ ALLERGEN_HEAD @ pet_name_of p @ ALLERGIC_TO"
             "ALLERGEN_TAIL @ FORMAT_DIRECTIVE"]
      show "str_in a ?out" by (simp add: out)
    qed
    have nm: "str_in (pet_name_of p) ?out"
      using str_in_mid[of "pet_name_of p" "BASE_PROMPT @ ALLERGEN_HEAD"
         "ALLERGIC_TO @ join ENUM_COMMA al @ ALLERGEN_TAIL @ FORMAT_DIRECTIVE"]
      by (simp add: out)
    have given: "\<forall>n. name p = Some n \<longrightarrow> str_in n ?out"
    proof (intro allI impI)
      fix n assume n: "name p = Some n"
      show "str_in n ?out"
      proof (cases "n = []")
        case True
        then show ?thesis using str_in_mid[of "[]" "[]" ?out] by simp
      next
        case False
        with n nm show ?thesis by (simp add: pet_name_of_def)
      qed
    qed
    have dflt: "name p = None \<longrightarrow> str_in DEFAULT_NAME ?out"
      using nm by (auto simp: pet_name_of_def)
    have head: "str_in ALLERGEN_HEAD ?out"
      using str_in_mid[of ALLERGEN_HEAD BASE_PROMPT
         "pet_name_of p @ ALLERGIC_TO @ join ENUM_COMMA al @ ALLERGEN_TAIL @ FORMAT_DIRECTIVE"]
      by (simp add: out)
    from terms given dflt head
    show "(\<forall>a \<in> set al. str_in a ?out) \<and>
      (\<forall>n. name p = Some n \<longrightarrow> str_in n ?out) \<and>
      (name p = None \<longrightarrow> str_in DEFAULT_NAME ?out) \<and>
      str_in ALLERGEN_HEAD ?out"
      by blast
  qed
next
  show "(pet_profile = None \<or>
     (\<exists>p. pet_profile = Some p \<and> (allergies p = None \<or> allergies p = Some []))) \<longrightarrow>
      build_system_prompt pet_profile = BASE_PROMPT @ FORMAT_DIRECTIVE \<and>
      \<not> str_in ALLERGEN_HEAD (build_system_prompt pet_profile)"
  proof
    assume h: "pet_profile = None \<or>
       (\<exists>p. pet_profile = Some p \<and> (allergies p = None \<or> allergies p = Some []))"
    then have "build_system_prompt pet_profile = BASE_PROMPT @ FORMAT_DIRECTIVE"
      by (auto simp: build_system_prompt_def has_allergies_def Let_def)
    then show "build_system_prompt pet_profile = BASE_PROMPT @ FORMAT_DIRECTIVE \<and>
      \<not> str_in ALLERGEN_HEAD (build_system_prompt pet_profile)"
      using no_clause_in_fixed_prompt by simp
  qed
qed


theorem prompt_allergy_clause_witness:
  "str_in [40060] (build_system_prompt
      (Some \<lparr>name = None, pet_type = None, breed = None, allergies = Some [[40060]]\<rparr>)) \<and>
   str_in DEFAULT_NAME (build_system_prompt
      (Some \<lparr>name = None, pet_type = None, breed = None, allergies = Some [[40060]]\<rparr>)) \<and>
   \<not> str_in ALLERGEN_HEAD (build_system_prompt None)"
proof -
  let ?p = "\<lparr>name = None, pet_type = None, breed = None, allergies = Some [[40060]]\<rparr>"
  have "(\<forall>a \<in> set [[40060]]. str_in a (build_system_prompt (Some ?p))) \<and>
        (\<forall>n. name ?p = Some n \<longrightarrow> str_in n (build_system_prompt (Some ?p))) \<and>
        (name ?p = None \<longrightarrow> str_in DEFAULT_NAME (build_system_prompt (Some ?p))) \<and>
        str_in ALLERGEN_HEAD (build_system_prompt (Some ?p))"
    using prompt_allergy_clause[of "Some ?p", THEN conjunct1, rule_format, of ?p "[[40060]]"]
    by simp
  moreover have "\<not> str_in ALLERGEN_HEAD (build_system_prompt None)"
    using prompt_allergy_clause[of None, THEN conjunct2] by blast
  ultimately show ?thesis by simp
qed

section \<open>The streaming pipeline\<close>

lemma stream_loop_eq:
  "stream_loop buf chs =
     (map (\<lambda>c. Content (filter_thinking_content c)) (filter relayed (fragments chs)),
      buf @ filter relayed (fragments chs))"
proof (induction chs arbitrary: buf)
  case Nil
  then show ?case by (simp add: fragments_def)
next
  case (Cons ch chs)
  show ?case
  proof (cases "chunk_content ch")
    case None
    then show ?thesis using Cons.IH[of buf] by (simp add: fragments_def)
  next
    case (Some c)
    then show ?thesis using Cons.IH[of buf] Cons.IH[of "buf @ [c]"]
      by (simp add: fragments_def relayed_def Let_def)
  qed
qed

lemma relayed_nonempty: "\<forall>c \<in> set (filter relayed cs). c \<noteq> []"
  by (auto simp: relayed_def)

lemma concat_nonempty: "\<forall>c \<in> set cs. c \<noteq> [] \<Longrightarrow> concat cs = [] \<longleftrightarrow> cs = []"
  by (cases cs) auto

lemma run_ended:
  assumes "reaches_stream api_key client up" and "stream_ok up"
  shows "events (stream_zhipu_ai_response lower api_key client up question pet_profile)
           = Status # map (\<lambda>c. Content (filter_thinking_content c)) (filter relayed (fragments (chunks up)))
              @ finalize (filter relayed (fragments (chunks up))) @ [Done]"
    and "final_buffer (stream_zhipu_ai_response lower api_key client up question pet_profile)
           = filter relayed (fragments (chunks up))"
  using assms
  by (auto simp: stream_zhipu_ai_response_def reaches_stream_def Let_def stream_loop_eq)

lemma run_raised:
  assumes "reaches_stream api_key client up" and "\<not> stream_ok up"
    and "raised_class up = WithinException"
  shows "events (stream_zhipu_ai_response lower api_key client up question pet_profile)
           = Status # map (\<lambda>c. Content (filter_thinking_content c)) (filter relayed (fragments (chunks up)))
              @ [Error ServiceUnavailable]"
    and "\<not> propagated (stream_zhipu_ai_response lower api_key client up question pet_profile)"
  using assms
  by (auto simp: stream_zhipu_ai_response_def reaches_stream_def Let_def stream_loop_eq)

lemma run_escaped:
  assumes "reaches_stream api_key client up" and "\<not> stream_ok up"
    and "raised_class up = OutsideException"
  shows "events (stream_zhipu_ai_response lower api_key client up question pet_profile)
           = Status # map (\<lambda>c. Content (filter_thinking_content c)) (filter relayed (fragments (chunks up)))"
    and "propagated (stream_zhipu_ai_response lower api_key client up question pet_profile)"
  using assms
  by (auto simp: stream_zhipu_ai_response_def reaches_stream_def Let_def stream_loop_eq)

lemma run_buffer:
  assumes "reaches_stream api_key client up"
  shows "final_buffer (stream_zhipu_ai_response lower api_key client up question pet_profile)
           = filter relayed (fragments (chunks up))"
  using assms
  by (auto simp: stream_zhipu_ai_response_def reaches_stream_def Let_def stream_loop_eq)

lemma run_not_reached:
  assumes "\<not> reaches_stream api_key client up" and "\<not> raises_uncaught api_key client up"
  shows "events (stream_zhipu_ai_response lower api_key client up question pet_profile)
           \<in> {[Error NotConfigured], [Status, Error ClientInitFailed],
               [Status, Error ServiceUnavailable]}"
    and "\<not> propagated (stream_zhipu_ai_response lower api_key client up question pet_profile)"
  using assms
  by (cases "raised_class up";
      auto simp: stream_zhipu_ai_response_def reaches_stream_def raises_uncaught_def Let_def)+

lemma run_not_reached_escaped:
  assumes "\<not> reaches_stream api_key client up" and "raises_uncaught api_key client up"
  shows "events (stream_zhipu_ai_response lower api_key client up question pet_profile) = [Status]"
    and "propagated (stream_zhipu_ai_response lower api_key client up question pet_profile)"
  using assms
  by (auto simp: stream_zhipu_ai_response_def reaches_stream_def raises_uncaught_def Let_def)

lemma run_ended_returns:
  assumes "reaches_stream api_key client up" and "stream_ok up"
  shows "\<not> propagated (stream_zhipu_ai_response lower api_key client up question pet_profile)"
  using assms
  by (auto simp: stream_zhipu_ai_response_def reaches_stream_def Let_def stream_loop_eq
           split: prod.splits)

lemma finalize_cases: "finalize buf = [] \<or> (\<exists>x. finalize buf = [Formatted x])"
  by (simp add: finalize_def Let_def)


text \<open>
  C3. When the key is absent or empty, the run yields the single event carrying the
  "not configured" error, no client is constructed and \<^verbatim>\<open>chat.completions.create\<close> is
  not called.
\<close>

theorem missing_key_single_error:
  assumes "api_key = None \<or> api_key = Some []"
  shows "events (stream_zhipu_ai_response lower api_key client up question pet_profile)
           = [Error NotConfigured] \<and>
         constructions (stream_zhipu_ai_response lower api_key client up question pet_profile) = 0 \<and>
         create_calls (stream_zhipu_ai_response lower api_key client up question pet_profile) = []"
  using assms by (auto simp: stream_zhipu_ai_response_def)


theorem missing_key_single_error_witness:
  "(None = None \<or> None = Some []) \<and>
   events (stream_zhipu_ai_response id None False tag_then_ok SAMPLE_QUESTION None)
     = [Error NotConfigured] \<and>
   constructions (stream_zhipu_ai_response id None False tag_then_ok SAMPLE_QUESTION None) = 0 \<and>
   create_calls (stream_zhipu_ai_response id None False tag_then_ok SAMPLE_QUESTION None) = []"
  using missing_key_single_error[of None id False tag_then_ok SAMPLE_QUESTION None]
  by simp

text \<open>
  C2, as the code has it. In a run in which no raise of the upstream gets past the
  handlers, the events are: at most one status event, then content events, then at most
  one formatted event, then exactly one terminal event (done or error), which is the
  last event; and the generator returns. In a run in which the upstream raises outside
  \<^verbatim>\<open>Exception\<close>, the events are the status event and the content events yielded
  before the raise, with no formatted and no terminal event; the generator ends by
  propagating the raise.
\<close>

theorem events_ordered_unless_uncaught:
  "(\<not> raises_uncaught api_key client up \<longrightarrow>
      (\<exists>st cs fm t.
         events (stream_zhipu_ai_response lower api_key client up question pet_profile)
           = st @ map Content cs @ fm @ [t] \<and>
         (st = [] \<or> st = [Status]) \<and>
         (fm = [] \<or> (\<exists>x. fm = [Formatted x])) \<and>
         (t = Done \<or> (\<exists>m. t = Error m))) \<and>
      \<not> propagated (stream_zhipu_ai_response lower api_key client up question pet_profile)) \<and>
   (raises_uncaught api_key client up \<longrightarrow>
      (\<exists>cs. events (stream_zhipu_ai_response lower api_key client up question pet_profile)
             = Status # map Content cs) \<and>
      propagated (stream_zhipu_ai_response lower api_key client up question pet_profile))"
proof (intro conjI impI)
  let ?r = "stream_zhipu_ai_response lower api_key client up question pet_profile"
  let ?K = "filter relayed (fragments (chunks up))"
  let ?cs = "map filter_thinking_content ?K"
  assume caught: "\<not> raises_uncaught api_key client up"
  show "\<exists>st cs fm t. events ?r = st @ map Content cs @ fm @ [t] \<and>
         (st = [] \<or> st = [Status]) \<and>
         (fm = [] \<or> (\<exists>x. fm = [Formatted x])) \<and>
         (t = Done \<or> (\<exists>m. t = Error m))"
  proof (cases "reaches_stream api_key client up")
    case False
    from run_not_reached(1)[OF False caught, of lower question pet_profile]
    consider "events ?r = [] @ map Content [] @ [] @ [Error NotConfigured]"
      | "events ?r = [Status] @ map Content [] @ [] @ [Error ClientInitFailed]"
      | "events ?r = [Status] @ map Content [] @ [] @ [Error ServiceUnavailable]"
      by auto
    then show ?thesis by cases blast+
  next
    case True
    show ?thesis
    proof (cases "stream_ok up")
      case False
      with caught True have w: "raised_class up = WithinException"
        by (cases "raised_class up") (auto simp: raises_uncaught_def reaches_stream_def)
      have "events ?r = [Status] @ map Content ?cs @ [] @ [Error ServiceUnavailable]"
        by (simp add: run_raised(1)[OF True False w] comp_def)
      then show ?thesis by blast
    next
      case ok: True
      have "events ?r = [Status] @ map Content ?cs @ finalize ?K @ [Done]"
        by (simp add: run_ended(1)[OF True ok] comp_def)
      with finalize_cases[of ?K] show ?thesis by blast
    qed
  qed
  show "\<not> propagated ?r"
  proof (cases "reaches_stream api_key client up")
    case False
    from run_not_reached(2)[OF False caught] show ?thesis .
  next
    case True
    show ?thesis
    proof (cases "stream_ok up")
      case False
      with caught True have w: "raised_class up = WithinException"
        by (cases "raised_class up") (auto simp: raises_uncaught_def reaches_stream_def)
      from run_raised(2)[OF True False w] show ?thesis .
    next
      case ok: True
      from run_ended_returns[OF True ok] show ?thesis .
    qed
  qed
next
  let ?r = "stream_zhipu_ai_response lower api_key client up question pet_profile"
  let ?K = "filter relayed (fragments (chunks up))"
  let ?cs = "map filter_thinking_content ?K"
  assume esc: "raises_uncaught api_key client up"
  show "\<exists>cs. events ?r = Status # map Content cs"
  proof (cases "reaches_stream api_key client up")
    case False
    from run_not_reached_escaped(1)[OF False esc, of lower question pet_profile]
    have "events ?r = Status # map Content []" by simp
    then show ?thesis by blast
  next
    case True
    with esc have ns: "\<not> stream_ok up" and o: "raised_class up = OutsideException"
      by (auto simp: raises_uncaught_def reaches_stream_def)
    have "events ?r = Status # map Content ?cs"
      by (simp add: run_escaped(1)[OF True ns o] comp_def)
    then show ?thesis by blast
  qed
next
  assume esc: "raises_uncaught api_key client up"
  show "propagated (stream_zhipu_ai_response lower api_key client up question pet_profile)"
  proof (cases "reaches_stream api_key client up")
    case False
    from run_not_reached_escaped(2)[OF False esc] show ?thesis .
  next
    case True
    with esc have ns: "\<not> stream_ok up" and o: "raised_class up = OutsideException"
      by (auto simp: raises_uncaught_def reaches_stream_def)
    from run_escaped(2)[OF True ns o] show ?thesis .
  qed
qed

theorem events_ordered_unless_uncaught_witness:
  "\<not> raises_uncaught SAMPLE_KEY False a_space \<and>
   (\<exists>st cs fm t.
      events (stream_zhipu_ai_response id SAMPLE_KEY False a_space SAMPLE_QUESTION None)
        = st @ map Content cs @ fm @ [t] \<and>
      (st = [] \<or> st = [Status]) \<and>
      (fm = [] \<or> (\<exists>x. fm = [Formatted x])) \<and>
      (t = Done \<or> (\<exists>m. t = Error m))) \<and>
   \<not> propagated (stream_zhipu_ai_response id SAMPLE_KEY False a_space SAMPLE_QUESTION None) \<and>
   raises_uncaught SAMPLE_KEY False ok_then_interrupt \<and>
   (\<exists>cs. events (stream_zhipu_ai_response id SAMPLE_KEY False ok_then_interrupt
                    SAMPLE_QUESTION None) = Status # map Content cs) \<and>
   propagated (stream_zhipu_ai_response id SAMPLE_KEY False ok_then_interrupt SAMPLE_QUESTION None)"
proof -
  have h1: "\<not> raises_uncaught SAMPLE_KEY False a_space"
    by (simp add: raises_uncaught_def a_space_def)
  have h2: "raises_uncaught SAMPLE_KEY False ok_then_interrupt"
    by (simp add: raises_uncaught_def SAMPLE_KEY_def ok_then_interrupt_def)
  from events_ordered_unless_uncaught[of SAMPLE_KEY False a_space id SAMPLE_QUESTION None,
         THEN conjunct1, rule_format, OF h1]
       events_ordered_unless_uncaught[of SAMPLE_KEY False ok_then_interrupt id SAMPLE_QUESTION None,
         THEN conjunct2, rule_format, OF h2]
       h1 h2
  show ?thesis by blast
qed

text \<open>
  C2, as the claim states it, fails: when the stream delivers the fragment \<^verbatim>\<open>ok\<close> and
  then raises outside \<^verbatim>\<open>Exception\<close>, the events are the status event and one content
  event, and there is no terminal event among them.
\<close>

theorem events_without_terminal:
  "events (stream_zhipu_ai_response id SAMPLE_KEY False ok_then_interrupt SAMPLE_QUESTION None)
     = [Status, Content OK_TEXT] \<and>
   filter is_terminal
     (events (stream_zhipu_ai_response id SAMPLE_KEY False ok_then_interrupt SAMPLE_QUESTION None))
     = [] \<and>
   propagated (stream_zhipu_ai_response id SAMPLE_KEY False ok_then_interrupt SAMPLE_QUESTION None)"
proof -
  have h1: "reaches_stream SAMPLE_KEY False ok_then_interrupt"
    by (simp add: reaches_stream_def SAMPLE_KEY_def ok_then_interrupt_def)
  have h2: "\<not> stream_ok ok_then_interrupt"
    by (simp add: ok_then_interrupt_def)
  have h3: "raised_class ok_then_interrupt = OutsideException"
    by (simp add: ok_then_interrupt_def)
  have ev: "events (stream_zhipu_ai_response id SAMPLE_KEY False ok_then_interrupt
                      SAMPLE_QUESTION None) = [Status, Content OK_TEXT]"
    by (simp add: run_escaped(1)[OF h1 h2 h3] fragments_ok_then_interrupt relayed_def
                  filter_ok_text sample_texts_nonempty)
  show ?thesis
    using run_escaped(2)[OF h1 h2 h3, of id SAMPLE_QUESTION None] by (simp add: ev)
qed

text \<open>
  C7. In a run whose stream ends without an exception, a formatted event is among the
  events exactly when the accumulated text is not empty and the formatter changes it,
  and then it carries the formatter's output; the events are the status event, content
  events, that formatted event if any, and the done event.
\<close>

theorem formatted_iff:
  assumes "reaches_stream api_key client up" and "stream_ok up"
  shows "let r = stream_zhipu_ai_response lower api_key client up question pet_profile;
             acc = concat (final_buffer r)
         in (\<forall>x. Formatted x \<in> set (events r) \<longleftrightarrow>
                  acc \<noteq> [] \<and> format_ai_response acc \<noteq> acc \<and> x = format_ai_response acc) \<and>
            (\<exists>cs. events r = Status # map Content cs
                    @ (if acc \<noteq> [] \<and> format_ai_response acc \<noteq> acc
                       then [Formatted (format_ai_response acc)] else [])
                    @ [Done])"
proof -
  let ?K = "filter relayed (fragments (chunks up))"
  have ne: "concat ?K = [] \<longleftrightarrow> ?K = []"
    by (rule concat_nonempty) (rule relayed_nonempty)
  show ?thesis
    unfolding Let_def run_ended[OF assms] using ne
    by (auto simp: finalize_def Let_def intro: exI[of _ "map filter_thinking_content ?K"])
qed


theorem formatted_iff_witness:
  "reaches_stream SAMPLE_KEY False a_space \<and> stream_ok a_space \<and>
   events (stream_zhipu_ai_response id SAMPLE_KEY False a_space SAMPLE_QUESTION None)
     = [Status, Content [97, 32], Formatted [97], Done]"
proof -
  have h1: "reaches_stream SAMPLE_KEY False a_space"
    by (simp add: reaches_stream_def SAMPLE_KEY_def a_space_def)
  have h2: "stream_ok a_space"
    by (simp add: a_space_def)
  have buf: "final_buffer (stream_zhipu_ai_response id SAMPLE_KEY False a_space SAMPLE_QUESTION None)
               = [[97, 32]]"
    by (simp add: run_buffer[OF h1] fragments_a_space relayed_def filter_a_space)
  have cs: "\<And>cs. Status # map Content cs @ [Formatted [97]] @ [Done]
                  = Status # map (\<lambda>c. Content (filter_thinking_content c)) [[97, 32]]
                      @ [Formatted [97]] @ [Done]
               \<Longrightarrow> cs = [[97, 32]]"
    by (auto simp: filter_a_space map_eq_Cons_conv)
  from formatted_iff[OF h1 h2, of id SAMPLE_QUESTION None]
  show ?thesis
    using h1 h2
    by (auto simp: Let_def buf format_a_space run_ended(1)[OF h1 h2] fragments_a_space
                   relayed_def filter_a_space finalize_def)
qed

text \<open>
  C1, as the code has it. In a run that gets as far as the stream, the buffer holds, in
  arrival order, the raw fragments that are relayed: a fragment that is empty after
  filtering is neither emitted nor appended to the buffer. The content events carry the
  filtered forms of the fragments in the buffer.
\<close>

theorem buffer_holds_relayed_fragments:
  assumes "reaches_stream api_key client up"
  shows "let r = stream_zhipu_ai_response lower api_key client up question pet_profile
         in final_buffer r = filter relayed (fragments (chunks up)) \<and>
            [c. Content c \<leftarrow> events r] = map filter_thinking_content (final_buffer r)"
proof (cases "stream_ok up")
  case True
  show ?thesis unfolding Let_def run_ended[OF assms True]
    by (auto simp: finalize_def Let_def comp_def)
next
  case False
  show ?thesis
  proof (cases "raised_class up")
    case WithinException
    show ?thesis unfolding Let_def run_raised(1)[OF assms False WithinException] run_buffer[OF assms]
      by (auto simp: comp_def)
  next
    case OutsideException
    show ?thesis unfolding Let_def run_escaped(1)[OF assms False OutsideException] run_buffer[OF assms]
      by (auto simp: comp_def)
  qed
qed


theorem buffer_holds_relayed_fragments_witness:
  "reaches_stream SAMPLE_KEY False tag_then_ok \<and>
   final_buffer (stream_zhipu_ai_response id SAMPLE_KEY False tag_then_ok SAMPLE_QUESTION None)
     = [OK_TEXT]"
proof -
  have h: "reaches_stream SAMPLE_KEY False tag_then_ok"
    by (simp add: reaches_stream_def SAMPLE_KEY_def tag_then_ok_def)
  from buffer_holds_relayed_fragments[OF h, of id SAMPLE_QUESTION None]
  show ?thesis
    using h
    by (simp add: Let_def fragments_tag_then_ok relayed_def filter_thinking_tag filter_ok_text
                  sample_texts_nonempty)
qed

text \<open>
  C1, as the claim states it, fails: on the stream of the two fragments
  \<^verbatim>\<open><thinking/>\<close> and \<^verbatim>\<open>ok\<close> the first is empty after filtering, and the buffer at the
  end holds \<^verbatim>\<open>ok\<close> only, not the concatenation of both raw fragments.
\<close>

theorem buffer_misses_filtered_out_fragment:
  "fragments (chunks tag_then_ok) = [THINKING_TAG, OK_TEXT] \<and>
   filter_thinking_content THINKING_TAG = [] \<and>
   final_buffer (stream_zhipu_ai_response id SAMPLE_KEY False tag_then_ok SAMPLE_QUESTION None)
     = [OK_TEXT] \<and>
   concat (final_buffer
      (stream_zhipu_ai_response id SAMPLE_KEY False tag_then_ok SAMPLE_QUESTION None))
     \<noteq> concat (fragments (chunks tag_then_ok))"
proof -
  have h1: "reaches_stream SAMPLE_KEY False tag_then_ok"
    by (simp add: reaches_stream_def SAMPLE_KEY_def tag_then_ok_def)
  have h2: "stream_ok tag_then_ok"
    by (simp add: tag_then_ok_def)
  have buf: "final_buffer
      (stream_zhipu_ai_response id SAMPLE_KEY False tag_then_ok SAMPLE_QUESTION None) = [OK_TEXT]"
    by (simp add: run_ended(2)[OF h1 h2] fragments_tag_then_ok relayed_def filter_thinking_tag
                  filter_ok_text sample_texts_nonempty)
  show ?thesis
    by (simp add: buf fragments_tag_then_ok filter_thinking_tag sample_texts_nonempty)
qed

section \<open>The matcher and the language of a pattern\<close>

lemma rep_greedy_set:
  "set (rep_greedy c n s) = {t. \<exists>w. s = w @ t \<and> (\<forall>x \<in> set w. cmatch c x) \<and> n \<le> length w}"
proof (induction c n s rule: rep_greedy.induct)
  case (1 c n)
  then show ?case by auto
next
  case (2 c n x xs)
  show ?case
  proof (intro set_eqI iffI)
    fix t assume "t \<in> set (rep_greedy c n (x # xs))"
    then consider (a) "cmatch c x" "t \<in> set (rep_greedy c (n - 1) xs)" | (b) "n = 0" "t = x # xs"
      by (auto split: if_splits)
    then show "t \<in> {t. \<exists>w. x # xs = w @ t \<and> (\<forall>x \<in> set w. cmatch c x) \<and> n \<le> length w}"
    proof cases
      case a
      with 2 obtain w where "xs = w @ t" "\<forall>x \<in> set w. cmatch c x" "n - 1 \<le> length w" by auto
      with a(1) have "x # xs = (x # w) @ t \<and> (\<forall>y \<in> set (x # w). cmatch c y) \<and> n \<le> length (x # w)"
        by auto
      then show ?thesis by blast
    next
      case b
      then have "x # xs = [] @ t \<and> (\<forall>y \<in> set []. cmatch c y) \<and> n \<le> length ([]::ustr)" by simp
      then show ?thesis by blast
    qed
  next
    fix t assume "t \<in> {t. \<exists>w. x # xs = w @ t \<and> (\<forall>x \<in> set w. cmatch c x) \<and> n \<le> length w}"
    then obtain w where w: "x # xs = w @ t" "\<forall>x \<in> set w. cmatch c x" "n \<le> length w" by auto
    show "t \<in> set (rep_greedy c n (x # xs))"
    proof (cases w)
      case Nil
      with w show ?thesis by auto
    next
      case (Cons y ys)
      with w have "cmatch c x" "xs = ys @ t" "\<forall>x \<in> set ys. cmatch c x" "n - 1 \<le> length ys" by auto
      with 2 have "t \<in> set (rep_greedy c (n - 1) xs)" by auto
      with \<open>cmatch c x\<close> show ?thesis by simp
    qed
  qed
qed

lemma rep_lazy_set:
  "set (rep_lazy c s) = {t. \<exists>w. s = w @ t \<and> (\<forall>x \<in> set w. cmatch c x)}"
proof (induction c s rule: rep_lazy.induct)
  case (1 c)
  then show ?case by auto
next
  case (2 c x xs)
  show ?case
  proof (intro set_eqI iffI)
    fix t assume "t \<in> set (rep_lazy c (x # xs))"
    then consider (a) "cmatch c x" "t \<in> set (rep_lazy c xs)" | (b) "t = x # xs"
      by (auto split: if_splits)
    then show "t \<in> {t. \<exists>w. x # xs = w @ t \<and> (\<forall>x \<in> set w. cmatch c x)}"
    proof cases
      case a
      with 2 obtain w where "xs = w @ t" "\<forall>x \<in> set w. cmatch c x" by auto
      with a(1) have "x # xs = (x # w) @ t \<and> (\<forall>y \<in> set (x # w). cmatch c y)" by auto
      then show ?thesis by blast
    next
      case b
      then have "x # xs = [] @ t \<and> (\<forall>y \<in> set []. cmatch c y)" by simp
      then show ?thesis by blast
    qed
  next
    fix t assume "t \<in> {t. \<exists>w. x # xs = w @ t \<and> (\<forall>x \<in> set w. cmatch c x)}"
    then obtain w where w: "x # xs = w @ t" "\<forall>x \<in> set w. cmatch c x" by auto
    show "t \<in> set (rep_lazy c (x # xs))"
    proof (cases w)
      case Nil
      with w show ?thesis by auto
    next
      case (Cons y ys)
      with w have "cmatch c x" "xs = ys @ t" "\<forall>x \<in> set ys. cmatch c x" by auto
      with 2 have "t \<in> set (rep_lazy c xs)" by auto
      with \<open>cmatch c x\<close> show ?thesis by simp
    qed
  qed
qed

lemma matches_Chars: "matches (Chars p) s t \<longleftrightarrow> s = p @ t"
  by (auto simp: matches_def prefix_def)

lemma matches_CharsI: "matches (CharsI p) s t \<longleftrightarrow> (\<exists>w. s = w @ t \<and> list_all2 ieq p w)"
proof
  assume "matches (CharsI p) s t"
  then have "length p \<le> length s" "list_all2 ieq p (take (length p) s)" "t = drop (length p) s"
    by (auto simp: matches_def split: if_splits)
  then have "s = take (length p) s @ t \<and> list_all2 ieq p (take (length p) s)" by simp
  then show "\<exists>w. s = w @ t \<and> list_all2 ieq p w" by blast
next
  assume "\<exists>w. s = w @ t \<and> list_all2 ieq p w"
  then obtain w where "s = w @ t" "list_all2 ieq p w" by auto
  moreover from this have "length w = length p" by (simp add: list_all2_lengthD)
  ultimately show "matches (CharsI p) s t" by (simp add: matches_def)
qed

lemma matches_Cls: "matches (Cls c) s t \<longleftrightarrow> (\<exists>x. s = x # t \<and> cmatch c x)"
  by (cases s) (auto simp: matches_def)

lemma matches_Seq: "matches (Seq a b) s t \<longleftrightarrow> (\<exists>u. matches a s u \<and> matches b u t)"
  by (force simp: matches_def image_iff)

lemma matches_Alt: "matches (Alt a b) s t \<longleftrightarrow> matches a s t \<or> matches b s t"
  by (auto simp: matches_def)

lemma matches_Opt: "matches (Opt a) s t \<longleftrightarrow> matches a s t \<or> t = s"
  by (auto simp: matches_def)

lemma matches_Rep:
  "matches (Rep c n) s t \<longleftrightarrow> (\<exists>w. s = w @ t \<and> (\<forall>x \<in> set w. cmatch c x) \<and> n \<le> length w)"
  by (simp add: matches_def image_image rep_greedy_set)

lemma matches_RepLazy:
  "matches (RepLazy c) s t \<longleftrightarrow> (\<exists>w. s = w @ t \<and> (\<forall>x \<in> set w. cmatch c x))"
  by (simp add: matches_def image_image rep_lazy_set)

lemma matches_Group: "matches (Group a) s t \<longleftrightarrow> matches a s t"
  by (force simp: matches_def image_iff)

lemma matches_Ahead: "matches (Ahead a) s t \<longleftrightarrow> t = s \<and> (\<exists>u. matches a s u)"
  by (cases "rmatch a s") (auto simp: matches_def)

lemma matches_Eos: "matches Eos s t \<longleftrightarrow> t = s \<and> (s = [] \<or> s = [10])"
  by (auto simp: matches_def)

lemmas matches_simps =
  matches_Chars matches_CharsI matches_Cls matches_Seq matches_Alt matches_Opt matches_Rep
  matches_RepLazy matches_Group matches_Ahead matches_Eos

lemma no_match_iff: "rmatch r s = [] \<longleftrightarrow> (\<forall>t. \<not> matches r s t)"
  by (cases "rmatch r s") (auto simp: matches_def)

lemma first_match_matches: "first_match adv r s = Some m \<Longrightarrow> matches r s (snd m)"
  by (auto simp: first_match_def matches_def find_Some_iff)

lemma first_match_None: "rmatch r s = [] \<Longrightarrow> first_match adv r s = None"
  by (simp add: first_match_def)

lemma first_match_False: "first_match False r s = (case rmatch r s of [] \<Rightarrow> None | m # ms \<Rightarrow> Some m)"
  by (cases "rmatch r s") (auto simp: first_match_def)

text \<open>Where the pattern matches at no position, the substitution changes nothing.\<close>

lemma sub_from_no_match:
  "(\<forall>t. suffix t s \<longrightarrow> rmatch r t = []) \<Longrightarrow> sub_from r rp adv s = s"
proof (induction s arbitrary: adv)
  case Nil
  then show ?case by (simp add: sub_from.simps first_match_None)
next
  case (Cons x xs)
  have "rmatch r (x # xs) = []" using Cons.prems by (simp add: suffix_order.refl)
  moreover have "sub_from r rp False xs = xs"
    using Cons.prems by (intro Cons.IH) (auto simp: suffix_Cons)
  ultimately show ?case by (simp add: sub_from.simps[of r rp adv "x # xs"] first_match_None)
qed

section \<open>Collapsing newlines and trimming\<close>

lemma rep_greedy_Nil_iff: "rep_greedy c n s = [] \<longleftrightarrow> length (takeWhile (cmatch c) s) < n"
  by (induction c n s rule: rep_greedy.induct) auto

lemma rep_greedy_hd:
  "rep_greedy c n s \<noteq> [] \<Longrightarrow> hd (rep_greedy c n s) = dropWhile (cmatch c) s"
proof (induction c n s rule: rep_greedy.induct)
  case (1 c n)
  then show ?case by (auto split: if_splits)
next
  case (2 c n x xs)
  show ?case
  proof (cases "cmatch c x")
    case True
    have "rep_greedy c (n - 1) xs \<noteq> []"
      using 2 True by (auto simp: rep_greedy_Nil_iff)
    with 2 True show ?thesis by simp
  next
    case False
    with 2 show ?thesis by (auto split: if_splits)
  qed
qed

lemma sub_from_skip:
  "rmatch r s = [] \<Longrightarrow>
     sub_from r rp adv s = (case s of [] \<Rightarrow> [] | x # xs \<Rightarrow> x # sub_from r rp False xs)"
  by (subst sub_from.simps) (simp add: first_match_None)

lemma sub_from_replace:
  "rmatch r s = m # ms \<Longrightarrow> length (snd m) < length s \<Longrightarrow>
     sub_from r rp False s = expand rp (fst m) @ sub_from r rp False (snd m)"
  by (subst sub_from.simps) (simp add: first_match_False)

lemma cmatch_NL: "cmatch (CIn [NL]) = (\<lambda>x. x = NL)"
  by auto

lemma collapse_unfold:
  "collapse s =
     (if 3 \<le> lead s then [NL, NL] @ collapse (dropWhile (\<lambda>x. x = NL) s)
      else (case s of [] \<Rightarrow> [] | x # xs \<Rightarrow> x # collapse xs))"
proof (cases "3 \<le> lead s")
  case True
  then have ne: "rep_greedy (CIn [NL]) 3 s \<noteq> []"
    by (simp add: rep_greedy_Nil_iff lead_def cmatch_NL)
  then obtain t ts where tt: "rep_greedy (CIn [NL]) 3 s = t # ts"
    by (cases "rep_greedy (CIn [NL]) 3 s") auto
  with rep_greedy_hd[OF ne] have t: "t = dropWhile (\<lambda>x. x = NL) s" by (simp add: cmatch_NL)
  have "lead s \<le> length s" by (simp add: lead_def length_takeWhile_le)
  have "length (dropWhile (\<lambda>x. x = NL) s) + lead s = length s"
    unfolding lead_def
    by (metis add.commute length_append takeWhile_dropWhile_id)
  with True have "length t < length s" using t by simp
  moreover have "rmatch (Rep (CIn [NL]) 3) s = (None, t) # map (Pair None) ts"
    using tt by simp
  ultimately show ?thesis using True t sub_from_replace[of "Rep (CIn [NL]) 3" s "(None, t)"]
    by (simp add: collapse_def re_sub_def)
next
  case False
  then have "rep_greedy (CIn [NL]) 3 s = []"
    by (simp add: rep_greedy_Nil_iff lead_def cmatch_NL)
  then have "rmatch (Rep (CIn [NL]) 3) s = []" by simp
  from sub_from_skip[OF this] show ?thesis using False
    by (simp add: collapse_def re_sub_def split: list.splits)
qed

lemma lead_Cons: "lead (x # xs) = (if x = NL then Suc (lead xs) else 0)"
  by (simp add: lead_def)

lemma lead_dropWhile: "lead (dropWhile (\<lambda>x. x = NL) s) = 0"
  unfolding lead_def by (induction s) auto

lemma lead_collapse: "lead (collapse s) \<le> lead s \<and> lead (collapse s) \<le> 2"
proof (induction "length s" arbitrary: s rule: less_induct)
  case less
  show ?case
  proof (cases "3 \<le> lead s")
    case True
    let ?d = "dropWhile (\<lambda>x. x = NL) s"
    have "length ?d < length s"
      using True unfolding lead_def
      by (metis (no_types, lifting) add.commute add_cancel_right_left length_append
           less_add_same_cancel2 not_numeral_le_zero takeWhile_dropWhile_id zero_less_iff_neq_zero)
    from less[OF this] have "lead (collapse ?d) = 0" by (simp add: lead_dropWhile)
    then show ?thesis using True
      by (subst (1 2) collapse_unfold) (simp add: lead_Cons)
  next
    case False
    show ?thesis
    proof (cases s)
      case Nil
      then show ?thesis by (subst (1 2) collapse_unfold) (simp add: lead_def)
    next
      case (Cons x xs)
      then have "length xs < length s" by simp
      from less[OF this] have ih: "lead (collapse xs) \<le> lead xs" by simp
      have "collapse s = x # collapse xs"
        using False Cons by (subst collapse_unfold) simp
      then show ?thesis using ih False Cons by (auto simp: lead_Cons)
    qed
  qed
qed

lemma str_in_NL3: "str_in [NL, NL, NL] s \<longleftrightarrow> (\<exists>t. suffix t s \<and> 3 \<le> lead t)"
proof (induction s)
  case Nil
  then show ?case by (simp add: lead_def)
next
  case (Cons x xs)
  have "prefix [NL, NL, NL] (x # xs) \<longleftrightarrow> 3 \<le> lead (x # xs)"
    by (cases xs; cases "tl xs") (auto simp: lead_def)
  then show ?case using Cons by (auto simp: suffix_Cons)
qed

lemma collapse_no_triple: "\<not> str_in [NL, NL, NL] (collapse s)"
proof (induction "length s" arbitrary: s rule: less_induct)
  case less
  show ?case
  proof (cases "3 \<le> lead s")
    case True
    let ?d = "dropWhile (\<lambda>x. x = NL) s"
    have len: "length ?d < length s"
      using True unfolding lead_def
      by (metis (no_types, lifting) add.commute add_cancel_right_left length_append
           less_add_same_cancel2 not_numeral_le_zero takeWhile_dropWhile_id zero_less_iff_neq_zero)
    have l0: "lead (collapse ?d) = 0" using lead_collapse[of ?d] by (simp add: lead_dropWhile)
    have c: "collapse s = NL # NL # collapse ?d"
      using True by (subst collapse_unfold) simp
    have "\<not> prefix [NL, NL, NL] (NL # NL # collapse ?d)"
      using l0 by (cases "collapse ?d") (auto simp: lead_def)
    moreover have "\<not> prefix [NL, NL, NL] (NL # collapse ?d)"
      using l0 by (cases "collapse ?d") (auto simp: lead_def)
    ultimately show ?thesis using less[OF len] by (simp add: c)
  next
    case False
    show ?thesis
    proof (cases s)
      case Nil
      then show ?thesis by (subst collapse_unfold) (simp add: lead_def)
    next
      case (Cons x xs)
      then have len: "length xs < length s" by simp
      have c: "collapse s = x # collapse xs"
        using False Cons by (subst collapse_unfold) simp
      have "lead (collapse s) \<le> lead s" using lead_collapse by blast
      with False have "\<not> 3 \<le> lead (x # collapse xs)" by (simp add: c)
      then have "\<not> prefix [NL, NL, NL] (x # collapse xs)"
        by (cases "collapse xs"; cases "tl (collapse xs)") (auto simp: lead_def)
      then show ?thesis using less[OF len] by (simp add: c)
    qed
  qed
qed

lemma strip_decomp:
  "\<exists>a b. s = a @ strip s @ b \<and> (\<forall>x \<in> set a. isspace x) \<and> (\<forall>x \<in> set b. isspace x)"
proof -
  let ?s' = "dropWhile isspace s"
  have 1: "s = takeWhile isspace s @ ?s'" by simp
  have 2: "rev ?s' = takeWhile isspace (rev ?s') @ dropWhile isspace (rev ?s')" by simp
  have "?s' = rev (dropWhile isspace (rev ?s')) @ rev (takeWhile isspace (rev ?s'))"
    by (metis 2 rev_append rev_rev_ident)
  then have 3: "?s' = strip s @ rev (takeWhile isspace (rev ?s'))" by (simp add: strip_def)
  have "s = takeWhile isspace s @ strip s @ rev (takeWhile isspace (rev ?s'))"
    using 1 3 by metis
  moreover have "\<forall>x \<in> set (takeWhile isspace s). isspace x"
    by (auto dest: set_takeWhileD)
  moreover have "\<forall>x \<in> set (rev (takeWhile isspace (rev ?s'))). isspace x"
    by (auto dest: set_takeWhileD)
  ultimately show ?thesis by blast
qed

lemma str_in_strip: "str_in p (strip s) \<Longrightarrow> str_in p s"
proof -
  assume a: "str_in p (strip s)"
  from strip_decomp[of s] obtain a b where "s = a @ strip s @ b" by blast
  with str_in_append_right[OF a, of a b] show ?thesis by simp
qed

lemma strip_ends:
  "strip s \<noteq> [] \<Longrightarrow> \<not> isspace (hd (strip s)) \<and> \<not> isspace (last (strip s))"
proof -
  assume ne: "strip s \<noteq> []"
  let ?s' = "dropWhile isspace s"
  let ?r = "dropWhile isspace (rev ?s')"
  have r: "strip s = rev ?r" by (simp add: strip_def)
  with ne have rne: "?r \<noteq> []" by simp
  then have "\<not> isspace (hd ?r)" by (rule hd_dropWhile)
  then have last: "\<not> isspace (last (strip s))" using rne by (simp add: r last_rev)
  have "?s' = strip s @ rev (takeWhile isspace (rev ?s'))"
    by (metis r rev_append rev_rev_ident takeWhile_dropWhile_id)
  with ne have "hd ?s' = hd (strip s)" by (metis hd_append2)
  moreover have "?s' \<noteq> []" using rne by (cases "dropWhile isspace s") auto
  then have "\<not> isspace (hd ?s')" by (rule hd_dropWhile)
  ultimately show ?thesis using last by simp
qed

lemma strip_id: "s = [] \<or> (\<not> isspace (hd s) \<and> \<not> isspace (last s)) \<Longrightarrow> strip s = s"
proof (cases s)
  case Nil
  then show ?thesis by (simp add: strip_def)
next
  case (Cons x xs)
  assume "s = [] \<or> (\<not> isspace (hd s) \<and> \<not> isspace (last s))"
  with Cons have h: "\<not> isspace x" and l: "\<not> isspace (last s)" by auto
  have "dropWhile isspace s = s" using h Cons by simp
  moreover have "dropWhile isspace (rev s) = rev s"
    using l Cons by (cases "rev s") (auto simp: hd_rev[symmetric] dest: arg_cong[of _ _ hd])
  ultimately show ?thesis by (simp add: strip_def)
qed


section \<open>The thinking filter\<close>

lemma ieq_GT: "ieq p 62 \<longleftrightarrow> p = 62"
  by (auto simp: ieq_def)

lemma ci_no_GT: "list_all2 ieq p w \<Longrightarrow> 62 \<notin> set p \<Longrightarrow> 62 \<notin> set w"
  by (induction p w rule: list_all2_induct) (auto simp: ieq_GT)

lemma ieq_single: "list_all2 ieq [c] w \<longleftrightarrow> (\<exists>x. w = [x] \<and> ieq c x)"
  by (cases w) (auto simp: list_all2_Cons1)

lemma ieq_LT: "ieq 60 c \<longleftrightarrow> c = 60"
  by (auto simp: ieq_def)

lemma ieq_GT': "ieq 62 c \<longleftrightarrow> c = 62"
  by (auto simp: ieq_def)

lemma ieq_slash: "ieq 47 c \<longleftrightarrow> c = 47"
  by (auto simp: ieq_def)

lemma ci_prefix_iff: "ci_prefix p s \<longleftrightarrow> (\<exists>w t. s = w @ t \<and> list_all2 ieq p w)"
proof
  assume "ci_prefix p s"
  then have "s = take (length p) s @ drop (length p) s \<and> list_all2 ieq p (take (length p) s)"
    by (simp add: ci_prefix_def)
  then show "\<exists>w t. s = w @ t \<and> list_all2 ieq p w" by blast
next
  assume "\<exists>w t. s = w @ t \<and> list_all2 ieq p w"
  then obtain w t where "s = w @ t" "list_all2 ieq p w" by auto
  moreover from this have "length w = length p" by (simp add: list_all2_lengthD)
  ultimately show "ci_prefix p s" by (simp add: ci_prefix_def)
qed

lemma matches_KEYWORD: "matches KEYWORD s t \<Longrightarrow> kw_prefix s \<and> (\<exists>w. s = w @ t \<and> 62 \<notin> set w)"
  unfolding KEYWORD_def matches_simps kw_prefix_def ci_prefix_iff
  by (elim disjE exE conjE) (frule ci_no_GT, simp, blast)+

lemma kw_prefix_matches: "kw_prefix s \<Longrightarrow> \<exists>t. matches KEYWORD s t"
  unfolding KEYWORD_def matches_simps kw_prefix_def ci_prefix_iff by blast

lemma kw_prefix_append: "kw_prefix s \<Longrightarrow> \<exists>w t. s = w @ t \<and> 62 \<notin> set w \<and> w \<noteq> [] \<and> (\<forall>v. kw_prefix (w @ v))"
proof -
  assume "kw_prefix s"
  then consider w t where "s = w @ t" "list_all2 ieq [116, 104, 105, 110, 107, 105, 110, 103] w"
    | w t where "s = w @ t" "list_all2 ieq [114, 101, 97, 115, 111, 110, 105, 110, 103] w"
    | w t where "s = w @ t" "list_all2 ieq [114, 101, 100, 97, 99, 116, 101, 100] w"
    unfolding kw_prefix_def ci_prefix_iff by blast
  then show ?thesis
  proof cases
    case 1
    from 1(2) have "62 \<notin> set w" by (rule ci_no_GT) simp
    moreover from 1(2) have "w \<noteq> []" by auto
    moreover from 1(2) have "\<forall>v. kw_prefix (w @ v)" unfolding kw_prefix_def ci_prefix_iff by blast
    ultimately show ?thesis using 1(1) by blast
  next
    case 2
    from 2(2) have "62 \<notin> set w" by (rule ci_no_GT) simp
    moreover from 2(2) have "w \<noteq> []" by auto
    moreover from 2(2) have "\<forall>v. kw_prefix (w @ v)" unfolding kw_prefix_def ci_prefix_iff by blast
    ultimately show ?thesis using 2(1) by blast
  next
    case 3
    from 3(2) have "62 \<notin> set w" by (rule ci_no_GT) simp
    moreover from 3(2) have "w \<noteq> []" by auto
    moreover from 3(2) have "\<forall>v. kw_prefix (w @ v)" unfolding kw_prefix_def ci_prefix_iff by blast
    ultimately show ?thesis using 3(1) by blast
  qed
qed

lemma kw_in_iff: "kw_in a \<longleftrightarrow> (\<exists>u v. a = u @ v \<and> kw_prefix v)"
proof (induction a)
  case Nil
  have "\<not> kw_prefix []" by (simp add: kw_prefix_def ci_prefix_def)
  then show ?case by simp
next
  case (Cons x xs)
  show ?case
  proof
    assume "kw_in (x # xs)"
    then consider "kw_prefix (x # xs)" | "kw_in xs" by auto
    then show "\<exists>u v. x # xs = u @ v \<and> kw_prefix v"
    proof cases
      case 1
      then have "x # xs = [] @ (x # xs) \<and> kw_prefix (x # xs)" by simp
      then show ?thesis by blast
    next
      case 2
      with Cons obtain u v where "xs = u @ v" "kw_prefix v" by auto
      then have "x # xs = (x # u) @ v \<and> kw_prefix v" by simp
      then show ?thesis by blast
    qed
  next
    assume "\<exists>u v. x # xs = u @ v \<and> kw_prefix v"
    then obtain u v where uv: "x # xs = u @ v" "kw_prefix v" by auto
    show "kw_in (x # xs)"
    proof (cases u)
      case Nil
      with uv have "kw_prefix (x # xs)" by simp
      then show ?thesis by simp
    next
      case (Cons y ys)
      with uv have "xs = ys @ v" by simp
      with uv(2) Cons.IH have "kw_in xs" by blast
      then show ?thesis by simp
    qed
  qed
qed

lemma not_GT_takeWhile: "GT \<notin> set a \<Longrightarrow> takeWhile (\<lambda>c. c \<noteq> GT) (a @ GT # t) = a"
  by (induction a) auto

lemma not_GT_dropWhile: "GT \<notin> set a \<Longrightarrow> dropWhile (\<lambda>c. c \<noteq> GT) (a @ GT # t) = GT # t"
  by (induction a) auto

lemma first_GT_unique:
  "a @ GT # t = b @ GT # u \<Longrightarrow> GT \<notin> set a \<Longrightarrow> GT \<notin> set b \<Longrightarrow> a = b \<and> t = u"
proof -
  assume e: "a @ GT # t = b @ GT # u" and a: "GT \<notin> set a" and b: "GT \<notin> set b"
  have "takeWhile (\<lambda>c. c \<noteq> GT) (a @ GT # t) = a" using a by (rule not_GT_takeWhile)
  moreover have "takeWhile (\<lambda>c. c \<noteq> GT) (b @ GT # u) = b" using b by (rule not_GT_takeWhile)
  ultimately have "a = b" using e by simp
  with e show ?thesis by simp
qed

text \<open>The language of the single-tag pattern.\<close>

lemma matches_SINGLE_TAG:
  "matches SINGLE_TAG s t \<longleftrightarrow> (\<exists>a. s = LT # a @ GT # t \<and> GT \<notin> set a \<and> kw_in a)"
proof
  assume "matches SINGLE_TAG s t"
  then obtain s1 s2 s3 s4 s5 where
    m1: "matches (CharsI [60]) s s1" and m2: "matches (Rep (CNot 62) 0) s1 s2" and
    m3: "matches KEYWORD s2 s3" and m4: "matches (Rep (CNot 62) 0) s3 s4" and
    m5: "matches (Opt (CharsI [47])) s4 s5" and m6: "matches (CharsI [62]) s5 t"
    unfolding SINGLE_TAG_def seqs.simps matches_Seq by blast
  from m1 have s: "s = LT # s1" by (auto simp: matches_CharsI ieq_single ieq_LT LT_def)
  from m2 obtain w1 where w1: "s1 = w1 @ s2" "GT \<notin> set w1" by (auto simp: matches_Rep GT_def)
  from matches_KEYWORD[OF m3] obtain k where k: "s2 = k @ s3" "GT \<notin> set k" "kw_prefix s2"
    by (auto simp: GT_def)
  from m4 obtain w2 where w2: "s3 = w2 @ s4" "GT \<notin> set w2" by (auto simp: matches_Rep GT_def)
  from m5 obtain o' where o': "s4 = o' @ s5" "GT \<notin> set o'"
    by (auto simp: matches_Opt matches_CharsI ieq_single ieq_slash GT_def)
  from m6 have s5: "s5 = GT # t" by (auto simp: matches_CharsI ieq_single ieq_GT' GT_def)
  let ?a = "w1 @ k @ w2 @ o'"
  have "s = LT # ?a @ GT # t" using s w1 k w2 o' s5 by simp
  moreover have "GT \<notin> set ?a" using w1 k w2 o' by simp
  moreover obtain kk rest where kk: "s2 = kk @ rest" "GT \<notin> set kk" "\<forall>v. kw_prefix (kk @ v)"
    using kw_prefix_append[OF k(3)] by (auto simp: GT_def)
  have "kw_in ?a"
  proof -
    have e: "kk @ rest = k @ w2 @ o' @ GT # t" using kk(1) k(1) w2(1) o'(1) s5 by simp
    have "kk = takeWhile (\<lambda>c. c \<noteq> GT) (kk @ rest) \<or> length kk \<le> length (k @ w2 @ o')"
    proof -
      have "takeWhile (\<lambda>c. c \<noteq> GT) (k @ w2 @ o' @ GT # t) = k @ w2 @ o'"
        using not_GT_takeWhile[of "k @ w2 @ o'" t] k(2) w2(2) o'(2) by simp
      moreover have "length kk \<le> length (takeWhile (\<lambda>c. c \<noteq> GT) (kk @ rest))"
        using kk(2) by (induction kk) auto
      ultimately show ?thesis using e by simp
    qed
    then have "length kk \<le> length (k @ w2 @ o')"
      using e not_GT_takeWhile[of "k @ w2 @ o'" t] k(2) w2(2) o'(2) by auto
    then obtain v where "k @ w2 @ o' = kk @ v"
      using e by (metis append.assoc append_eq_append_conv_if append_take_drop_id)
    then have "kw_prefix (k @ w2 @ o')" using kk(3) by simp
    then have "\<exists>u v. ?a = u @ v \<and> kw_prefix v" by blast
    then show ?thesis by (simp only: kw_in_iff)
  qed
  ultimately show "\<exists>a. s = LT # a @ GT # t \<and> GT \<notin> set a \<and> kw_in a" by blast
next
  assume "\<exists>a. s = LT # a @ GT # t \<and> GT \<notin> set a \<and> kw_in a"
  then obtain a where a: "s = LT # a @ GT # t" "GT \<notin> set a" "kw_in a" by auto
  from a(3) obtain u v where uv: "a = u @ v" "kw_prefix v" by (auto simp: kw_in_iff)
  from kw_prefix_matches[OF uv(2)] obtain v' where v': "matches KEYWORD v v'" by blast
  from matches_KEYWORD[OF v'] obtain w where w: "v = w @ v'" by blast
  have m3: "matches KEYWORD (v @ GT # t) (v' @ GT # t)"
    using v' w unfolding KEYWORD_def matches_simps by auto
  have m1: "matches (CharsI [60]) s (a @ GT # t)"
    using a(1) by (auto simp: matches_CharsI ieq_single ieq_LT LT_def)
  have m2: "matches (Rep (CNot 62) 0) (a @ GT # t) (v @ GT # t)"
    using uv(1) a(2) by (auto simp: matches_Rep GT_def)
  have m4: "matches (Rep (CNot 62) 0) (v' @ GT # t) (GT # t)"
    using uv(1) w a(2) by (auto simp: matches_Rep GT_def)
  have m5: "matches (Opt (CharsI [47])) (GT # t) (GT # t)"
    by (simp add: matches_Opt)
  have m6: "matches (CharsI [62]) (GT # t) t"
    by (auto simp: matches_CharsI ieq_single ieq_GT' GT_def)
  show "matches SINGLE_TAG s t"
    unfolding SINGLE_TAG_def seqs.simps matches_Seq
    using m1 m2 m3 m4 m5 m6 by blast
qed

lemma single_tag_unique:
  "matches SINGLE_TAG s t \<Longrightarrow> matches SINGLE_TAG s u \<Longrightarrow> t = u"
proof -
  assume "matches SINGLE_TAG s t" "matches SINGLE_TAG s u"
  then obtain a b where a: "s = LT # a @ GT # t" "GT \<notin> set a"
    and b: "s = LT # b @ GT # u" "GT \<notin> set b"
    unfolding matches_SINGLE_TAG by blast
  then have "a @ GT # t = b @ GT # u" by simp
  from first_GT_unique[OF this a(2) b(2)] show "t = u" by simp
qed

lemma re_sub_no_match:
  assumes "\<And>t u. suffix t s \<Longrightarrow> \<not> matches r t u"
  shows "re_sub r rp s = s"
  unfolding re_sub_def
  by (rule sub_from_no_match) (use assms in \<open>simp add: no_match_iff\<close>)

lemma untag_match:
  assumes "matches SINGLE_TAG s t"
  shows "re_sub SINGLE_TAG [] s = re_sub SINGLE_TAG [] t"
proof -
  from assms have "rmatch SINGLE_TAG s \<noteq> []" by (auto simp: no_match_iff)
  then obtain m ms where m: "rmatch SINGLE_TAG s = m # ms" by (cases "rmatch SINGLE_TAG s") auto
  then have "matches SINGLE_TAG s (snd m)" by (simp add: matches_def)
  with assms have t: "snd m = t" by (rule single_tag_unique[rotated])
  from assms have "length t < length s" by (auto simp: matches_SINGLE_TAG)
  with sub_from_replace[OF m, of "[]"] t show ?thesis by (simp add: re_sub_def)
qed

lemma untag_skip:
  assumes "\<forall>t. \<not> matches SINGLE_TAG s t"
  shows "re_sub SINGLE_TAG [] s = (case s of [] \<Rightarrow> [] | x # xs \<Rightarrow> x # re_sub SINGLE_TAG [] xs)"
proof -
  from assms have "rmatch SINGLE_TAG s = []" by (simp add: no_match_iff)
  from sub_from_skip[OF this] show ?thesis by (simp add: re_sub_def split: list.splits)
qed

lemma untag_no_GT:
  assumes "GT \<notin> set s"
  shows "re_sub SINGLE_TAG [] s = s"
proof (rule re_sub_no_match)
  fix t u assume "suffix t s"
  then have "set t \<subseteq> set s" by (auto simp: suffix_def)
  with assms have "GT \<notin> set t" by auto
  then show "\<not> matches SINGLE_TAG t u" by (auto simp: matches_SINGLE_TAG)
qed

lemma kw_in_Cons: "kw_in a \<Longrightarrow> kw_in (x # a)"
  by simp

lemma untag_plain_prefix:
  "GT \<notin> set a \<Longrightarrow> \<not> kw_in a \<Longrightarrow>
     re_sub SINGLE_TAG [] (a @ GT # r) = a @ GT # re_sub SINGLE_TAG [] r"
proof (induction a)
  case Nil
  have "\<forall>t. \<not> matches SINGLE_TAG (GT # r) t"
    by (auto simp: matches_SINGLE_TAG GT_def LT_def)
  from untag_skip[OF this] show ?case by simp
next
  case (Cons x a)
  have "\<forall>t. \<not> matches SINGLE_TAG ((x # a) @ GT # r) t"
  proof (intro allI notI)
    fix t assume "matches SINGLE_TAG ((x # a) @ GT # r) t"
    then obtain b where b: "(x # a) @ GT # r = LT # b @ GT # t" "GT \<notin> set b" "kw_in b"
      by (auto simp: matches_SINGLE_TAG)
    then have "a @ GT # r = b @ GT # t" by simp
    with first_GT_unique[OF this] Cons.prems(1) b(2) have "a = b" by simp
    with b(3) Cons.prems(2) show False by simp
  qed
  from untag_skip[OF this] Cons show ?case by simp
qed

lemma untag_clean:
  "suffix t (re_sub SINGLE_TAG [] s) \<Longrightarrow> \<not> matches SINGLE_TAG t u"
proof (induction "length s" arbitrary: s t u rule: less_induct)
  case less
  show ?case
  proof (cases "\<exists>v. matches SINGLE_TAG s v")
    case True
    then obtain v where v: "matches SINGLE_TAG s v" by blast
    then have "length v < length s" by (auto simp: matches_SINGLE_TAG)
    moreover have "suffix t (re_sub SINGLE_TAG [] v)" using less.prems untag_match[OF v] by simp
    ultimately show ?thesis using less.hyps by blast
  next
    case False
    then have nm: "\<forall>v. \<not> matches SINGLE_TAG s v" by blast
    show ?thesis
    proof (cases s)
      case Nil
      with untag_skip[OF nm] less.prems have "t = []" by simp
      then show ?thesis by (simp add: matches_SINGLE_TAG)
    next
      case (Cons x xs)
      with untag_skip[OF nm] have out: "re_sub SINGLE_TAG [] s = x # re_sub SINGLE_TAG [] xs"
        by simp
      from less.prems consider (here) "t = x # re_sub SINGLE_TAG [] xs"
        | (later) "suffix t (re_sub SINGLE_TAG [] xs)"
        by (auto simp: out suffix_Cons)
      then show ?thesis
      proof cases
        case later
        moreover have "length xs < length s" using Cons by simp
        ultimately show ?thesis using less.hyps by blast
      next
        case here
        show ?thesis
        proof
          assume "matches SINGLE_TAG t u"
          then obtain b where b: "x = LT" "re_sub SINGLE_TAG [] xs = b @ GT # u"
            "GT \<notin> set b" "kw_in b"
            by (auto simp: here matches_SINGLE_TAG)
          show False
          proof (cases "GT \<in> set xs")
            case False
            have "GT \<in> set (re_sub SINGLE_TAG [] xs)" by (simp add: b(2))
            with untag_no_GT[OF False] False show False by simp
          next
            case True
            then obtain a r where ar: "xs = a @ GT # r" "GT \<notin> set a"
              by (auto dest: split_list_first)
            have nk: "\<not> kw_in a"
            proof
              assume "kw_in a"
              with ar b(1) Cons have "matches SINGLE_TAG s r"
                by (auto simp: matches_SINGLE_TAG)
              with nm show False by blast
            qed
            from untag_plain_prefix[OF ar(2) nk, of r] ar(1) b(2)
            have "a @ GT # re_sub SINGLE_TAG [] r = b @ GT # u" by simp
            from first_GT_unique[OF this ar(2) b(3)] b(4) nk show False by simp
          qed
        qed
      qed
    qed
  qed
qed

lemma untag_idem: "re_sub SINGLE_TAG [] (re_sub SINGLE_TAG [] s) = re_sub SINGLE_TAG [] s"
  by (rule re_sub_no_match) (rule untag_clean)

lemma paired_starts_with_single:
  assumes "matches PAIRED_TAG s t"
  shows "\<exists>u. matches SINGLE_TAG s u"
proof -
  from assms obtain s1 s2 s3 s4 s5 where
    m1: "matches (CharsI [60]) s s1" and m2: "matches (Rep (CNot 62) 0) s1 s2" and
    m3: "matches KEYWORD s2 s3" and m4: "matches (Rep (CNot 62) 0) s3 s4" and
    m5: "matches (CharsI [62]) s4 s5"
    unfolding PAIRED_TAG_def seqs.simps matches_Seq by blast
  have "matches (Opt (CharsI [47])) s4 s4" by (simp add: matches_Opt)
  with m1 m2 m3 m4 m5 have "matches SINGLE_TAG s s5"
    unfolding SINGLE_TAG_def seqs.simps matches_Seq by blast
  then show ?thesis by blast
qed

lemma unpair_clean: "re_sub PAIRED_TAG [] (re_sub SINGLE_TAG [] s) = re_sub SINGLE_TAG [] s"
proof (rule re_sub_no_match)
  fix t u assume "suffix t (re_sub SINGLE_TAG [] s)"
  then have "\<forall>v. \<not> matches SINGLE_TAG t v" by (auto dest: untag_clean)
  then show "\<not> matches PAIRED_TAG t u" using paired_starts_with_single by blast
qed

lemma filter_idem: "filter_thinking_content (filter_thinking_content x) = filter_thinking_content x"
  by (simp add: filter_thinking_content_def unpair_clean untag_idem)

lemma tag_at_iff: "tag_at s \<longleftrightarrow> (\<exists>t. matches SINGLE_TAG s t)"
proof
  assume "tag_at s"
  then obtain xs where s: "s = LT # xs" "GT \<in> set xs" "kw_in (takeWhile (\<lambda>c. c \<noteq> GT) xs)"
    by (auto simp: tag_at_def split: list.splits)
  from s(2) obtain a r where ar: "xs = a @ GT # r" "GT \<notin> set a"
    by (auto dest: split_list_first)
  with s(3) have "kw_in a" by (simp add: not_GT_takeWhile)
  with s(1) ar have "matches SINGLE_TAG s r" by (auto simp: matches_SINGLE_TAG)
  then show "\<exists>t. matches SINGLE_TAG s t" by blast
next
  assume "\<exists>t. matches SINGLE_TAG s t"
  then obtain t a where "s = LT # a @ GT # t" "GT \<notin> set a" "kw_in a"
    by (auto simp: matches_SINGLE_TAG)
  then show "tag_at s" by (simp add: tag_at_def not_GT_takeWhile)
qed

lemma has_marker_iff: "has_marker s \<longleftrightarrow> (\<exists>t. suffix t s \<and> tag_at t)"
proof (induction s)
  case Nil
  then show ?case by (simp add: tag_at_def)
next
  case (Cons x xs)
  then show ?case by (auto simp: suffix_Cons)
qed

lemma filter_no_marker:
  assumes "\<not> has_marker x"
  shows "filter_thinking_content x = x"
proof -
  have nos: "\<And>t u. suffix t x \<Longrightarrow> \<not> matches SINGLE_TAG t u"
    using assms by (auto simp: has_marker_iff tag_at_iff)
  have "re_sub PAIRED_TAG [] x = x"
  proof (rule re_sub_no_match)
    fix t u assume "suffix t x"
    then have "\<forall>v. \<not> matches SINGLE_TAG t v" using nos by blast
    then show "\<not> matches PAIRED_TAG t u" using paired_starts_with_single by blast
  qed
  moreover have "re_sub SINGLE_TAG [] x = x" using nos by (rule re_sub_no_match)
  ultimately show ?thesis by (simp add: filter_thinking_content_def)
qed


lemma bold_text_no_marker: "\<not> has_marker BOLD_TEXT"
  by (simp add: BOLD_TEXT_def tag_at_def kw_prefix_def ci_prefix_def ieq_def GT_def LT_def)

text \<open>
  C5. Filtering twice gives the same as filtering once; and a text that contains no
  denylisted marker is returned unchanged.
\<close>

theorem filter_idempotent:
  "filter_thinking_content (filter_thinking_content x) = filter_thinking_content x \<and>
   (\<not> has_marker x \<longrightarrow> filter_thinking_content x = x)"
  using filter_idem filter_no_marker by blast

theorem filter_idempotent_witness:
  "\<not> has_marker BOLD_TEXT \<and>
   filter_thinking_content (filter_thinking_content BOLD_TEXT) = filter_thinking_content BOLD_TEXT \<and>
   filter_thinking_content BOLD_TEXT = BOLD_TEXT"
  using filter_idempotent[of BOLD_TEXT] bold_text_no_marker by simp

section \<open>The formatter on text without section markers\<close>

lemma str_in_suffix_prefix: "suffix t s \<Longrightarrow> prefix m t \<Longrightarrow> str_in m s"
  by (auto simp: suffix_def prefix_def str_in_iff)

lemma re_sub_absent:
  assumes "\<And>t u. matches r t u \<Longrightarrow> prefix m t" and "\<not> str_in m s"
  shows "re_sub r rp s = s"
proof (rule re_sub_no_match)
  fix t u assume "suffix t s"
  with assms(2) have "\<not> prefix m t" using str_in_suffix_prefix by blast
  with assms(1) show "\<not> matches r t u" by blast
qed

lemma starts_MARKER_ASCII_COLON: "matches (MARKER_ASCII_COLON m) t u \<Longrightarrow> prefix m t"
  unfolding MARKER_ASCII_COLON_def seqs.simps matches_Seq matches_Chars by auto

lemma starts_MARKER_COLON: "matches (MARKER_COLON m) t u \<Longrightarrow> prefix m t"
  unfolding MARKER_COLON_def seqs.simps matches_Seq matches_Chars by auto

lemma starts_MARKER_OPT_COLON: "matches (MARKER_OPT_COLON m) t u \<Longrightarrow> prefix m t"
  unfolding MARKER_OPT_COLON_def seqs.simps matches_Seq matches_Chars by auto

lemma starts_MARKER_TO_MARKER: "matches (MARKER_TO_MARKER m m') t u \<Longrightarrow> prefix m t"
  unfolding MARKER_TO_MARKER_def seqs.simps matches_Seq matches_Chars by auto

lemma normalise_marker_free: "marker_free s \<Longrightarrow> normalise_markers s = s"
  unfolding marker_free_def normalise_markers_def Let_def set_colon_def separate_def
  by (simp add: re_sub_absent[OF starts_MARKER_ASCII_COLON]
                re_sub_absent[OF starts_MARKER_COLON]
                re_sub_absent[OF starts_MARKER_TO_MARKER])

lemma split_on_nonempty: "split_on d s \<noteq> []"
  by (induction s) (auto split: list.splits)

lemma join_Cons_hd: "join sep ((x # h) # rest) = x # join sep (h # rest)"
  by (cases rest) auto

lemma join_split_on: "join [d] (split_on d s) = s"
proof (induction s)
  case Nil
  then show ?case by simp
next
  case (Cons x xs)
  obtain h rest where hr: "split_on d xs = h # rest"
    using split_on_nonempty[of d xs] by (cases "split_on d xs") auto
  with Cons show ?case by (auto simp: join_Cons_hd)
qed

lemma split_on_str_in: "l \<in> set (split_on d s) \<Longrightarrow> str_in m l \<Longrightarrow> str_in m s"
proof -
  assume l: "l \<in> set (split_on d s)" and m: "str_in m l"
  from str_in_join[OF l, of "[d]"] have "str_in l s" by (simp add: join_split_on)
  then obtain a b where "s = a @ l @ b" by (auto simp: str_in_iff)
  with str_in_append_right[OF m, of a b] show ?thesis by simp
qed

lemma split_on_no_sep: "l \<in> set (split_on d s) \<Longrightarrow> d \<notin> set l"
proof (induction s arbitrary: l)
  case Nil
  then show ?case by simp
next
  case (Cons x xs)
  obtain h rest where hr: "split_on d xs = h # rest"
    using split_on_nonempty[of d xs] by (cases "split_on d xs") auto
  with Cons show ?case by (auto split: if_splits)
qed

lemma strip_subset: "set (strip s) \<subseteq> set s"
proof -
  from strip_decomp[of s] obtain a b where "s = a @ strip s @ b" by blast
  then have "set s = set a \<union> set (strip s) \<union> set b" by (metis set_append Un_assoc)
  then show ?thesis by blast
qed

lemma segment_no_header:
  "(\<forall>l \<in> set ls. \<not> is_header (strip l)) \<Longrightarrow>
     segment fl [] ls = fl @ filter (\<lambda>l. l \<noteq> []) (map strip ls)"
  by (induction ls arbitrary: fl) (auto simp: Let_def)

lemma marker_free_lines:
  assumes "marker_free s" and "l \<in> set (split_on NL s)"
  shows "\<not> is_header (strip l)"
  using assms split_on_str_in[OF assms(2)] str_in_strip
  unfolding marker_free_def is_header_def by blast

lemma segment_marker_free:
  "marker_free s \<Longrightarrow> segment [] [] (split_on NL s) = trimmed_lines s"
  using segment_no_header[of "split_on NL s" "[]"] marker_free_lines
  by (auto simp: trimmed_lines_def)

lemma trimmed_line_props:
  assumes "l \<in> set (trimmed_lines s)"
  shows "l \<noteq> []" and "NL \<notin> set l" and "\<not> isspace (hd l)" and "\<not> isspace (last l)"
proof -
  from assms obtain l0 where l0: "l0 \<in> set (split_on NL s)" "l = strip l0" "l \<noteq> []"
    by (auto simp: trimmed_lines_def)
  show "l \<noteq> []" by fact
  show "NL \<notin> set l" using split_on_no_sep[OF l0(1)] strip_subset[of l0] l0(2) by blast
  show "\<not> isspace (hd l)" "\<not> isspace (last l)" using strip_ends[of l0] l0(2,3) by auto
qed

lemma join_hd_last:
  "L \<noteq> [] \<Longrightarrow> \<forall>l \<in> set L. l \<noteq> [] \<Longrightarrow>
     join sep L \<noteq> [] \<and> hd (join sep L) = hd (hd L) \<and> last (join sep L) = last (last L)"
  by (induction sep L rule: join.induct) auto

lemma lead_plain: "NL \<notin> set w \<Longrightarrow> w \<noteq> [] \<Longrightarrow> lead (w @ r) = 0"
  by (cases w) (auto simp: lead_def)

lemma join_lead:
  "\<forall>l \<in> set L. l \<noteq> [] \<and> NL \<notin> set l \<Longrightarrow> suffix t (join [NL] L) \<Longrightarrow> lead t \<le> 1"
proof (induction "[NL]" L arbitrary: t rule: join.induct)
  case 1
  then show ?case by (simp add: lead_def)
next
  case (2 x)
  then obtain p where "x = p @ t" by (auto simp: suffix_def)
  with 2 have "NL \<notin> set t" by auto
  then show ?case by (cases t) (auto simp: lead_def)
next
  case (3 x y ys)
  from 3(3) have "suffix t (x @ NL # join [NL] (y # ys))" by simp
  then consider (a) "suffix t (join [NL] (y # ys))"
    | (b) "t = NL # join [NL] (y # ys)"
    | (c) w where "w \<noteq> []" "suffix w x" "t = w @ NL # join [NL] (y # ys)"
    by (auto simp: suffix_append suffix_Cons)
  then show ?case
  proof cases
    case a
    with 3 show ?thesis by auto
  next
    case b
    have "lead (join [NL] (y # ys)) \<le> 1 \<and> lead (join [NL] (y # ys)) = lead (y @ drop (length y) (join [NL] (y # ys)))"
      using 3 by (cases ys) (auto simp: suffix_order.refl)
    moreover have "lead (y @ drop (length y) (join [NL] (y # ys))) = 0"
      using 3(2) by (intro lead_plain) auto
    ultimately show ?thesis using b by (simp add: lead_Cons)
  next
    case c
    then have "NL \<notin> set w" using 3(2) by (auto simp: suffix_def)
    from lead_plain[OF this c(1)] c(3) show ?thesis by simp
  qed
qed

lemma collapse_id:
  assumes "\<And>t. suffix t s \<Longrightarrow> lead t \<le> 1"
  shows "collapse s = s"
  unfolding collapse_def
proof (rule re_sub_no_match)
  fix t u assume t: "suffix t s"
  show "\<not> matches (Rep (CIn [NL]) 3) t u"
  proof
    assume "matches (Rep (CIn [NL]) 3) t u"
    then obtain w where w: "t = w @ u" "\<forall>x \<in> set w. x = NL" "3 \<le> length w"
      by (auto simp: matches_Rep)
    then have "takeWhile (\<lambda>x. x = NL) t = w @ takeWhile (\<lambda>x. x = NL) u"
      by (simp add: takeWhile_append2)
    then have "3 \<le> lead t" using w(3) by (simp add: lead_def)
    with assms[OF t] show False by simp
  qed
qed

lemma format_without_markers:
  assumes "marker_free (strip_thinking (strip text))"
  shows "format_ai_response text = join [NL] (trimmed_lines (strip_thinking (strip text)))"
proof (cases "text = []")
  case True
  have "strip_thinking (strip []) = []"
    by (simp add: strip_thinking_def regex_eval)
  then show ?thesis using True
    by (simp add: format_ai_response_def trimmed_lines_def strip_def)
next
  case False
  let ?t = "strip_thinking (strip text)"
  let ?L = "trimmed_lines ?t"
  let ?J = "join [NL] ?L"
  have props: "\<forall>l \<in> set ?L. l \<noteq> [] \<and> NL \<notin> set l"
    using trimmed_line_props(1,2) by blast
  have c: "collapse ?J = ?J"
    by (rule collapse_id) (rule join_lead[OF props])
  have s: "strip ?J = ?J"
  proof (cases "?L = []")
    case True
    then show ?thesis by (simp add: strip_def)
  next
    case ne: False
    then have "hd ?L \<in> set ?L" "last ?L \<in> set ?L" by auto
    then have "\<not> isspace (hd (hd ?L))" "\<not> isspace (last (last ?L))"
      using trimmed_line_props(3,4) by blast+
    moreover have "\<forall>l \<in> set ?L. l \<noteq> []" using props by blast
    ultimately show ?thesis using join_hd_last[OF ne, of "[NL]"] by (intro strip_id) simp
  qed
  show ?thesis
    using False assms c s
    by (simp add: format_ai_response_def normalise_marker_free segment_marker_free)
qed


lemma split_on_single: "d \<notin> set s \<Longrightarrow> split_on d s = [s]"
  by (induction s) auto

lemma strip_strip: "strip (strip s) = strip s"
  using strip_ends[of s] by (intro strip_id) blast

lemma strip_tagged_lines: "strip TAGGED_LINES = TAGGED_LINES"
  by (simp add: TAGGED_LINES_def strip_def isspace_def)

lemma strip_thinking_tagged_lines: "strip_thinking TAGGED_LINES = [97, 10, 10, 98]"
  by (simp add: TAGGED_LINES_def strip_thinking_def regex_eval)

lemma strip_thinking_ok: "strip_thinking OK_TEXT = OK_TEXT"
  by (simp add: OK_TEXT_def strip_thinking_def regex_eval)

lemma marker_free_samples:
  "marker_free TAGGED_LINES" "marker_free [97, 10, 10, 98]" "marker_free OK_TEXT"
  by (simp_all add: marker_free_def TAGGED_LINES_def OK_TEXT_def RISK_LEVEL_def RISK_POINT_def
                    FEEDING_ADVICE_def)

lemma trimmed_lines_sample: "join [NL] (trimmed_lines [97, 10, 10, 98]) = [97, 10, 98]"
  by (simp add: trimmed_lines_def NL_def strip_def isspace_def)

lemma format_tagged_lines: "format_ai_response TAGGED_LINES = [97, 10, 98]"
proof -
  have "marker_free (strip_thinking (strip TAGGED_LINES))"
    by (simp add: strip_tagged_lines strip_thinking_tagged_lines marker_free_samples)
  from format_without_markers[OF this] show ?thesis
    by (simp add: strip_tagged_lines strip_thinking_tagged_lines trimmed_lines_sample)
qed


text \<open>
  C4, as the code has it. When the text that is left after trimming and removing the
  thinking content contains none of the three markers, the formatter returns that text
  with every line trimmed, the empty lines dropped and the lines joined by single
  newlines. When moreover the input has no thinking content and its trimmed form is a
  single line, the formatter returns the trimmed input.
\<close>

theorem format_marker_free_text:
  "(marker_free (strip_thinking (strip text)) \<longrightarrow>
      format_ai_response text = join [NL] (trimmed_lines (strip_thinking (strip text)))) \<and>
   (marker_free text \<and> strip_thinking (strip text) = strip text \<and> NL \<notin> set (strip text) \<longrightarrow>
      format_ai_response text = strip text)"
proof (intro conjI impI)
  assume "marker_free (strip_thinking (strip text))"
  then show "format_ai_response text = join [NL] (trimmed_lines (strip_thinking (strip text)))"
    by (rule format_without_markers)
next
  assume h: "marker_free text \<and> strip_thinking (strip text) = strip text \<and> NL \<notin> set (strip text)"
  then have "marker_free (strip text)"
    using str_in_strip unfolding marker_free_def by blast
  with h have "format_ai_response text = join [NL] (trimmed_lines (strip text))"
    using format_without_markers[of "text"] by simp
  also have "trimmed_lines (strip text) = (if strip text = [] then [] else [strip text])"
    using h by (simp add: trimmed_lines_def split_on_single strip_strip)
  finally show "format_ai_response text = strip text" by simp
qed

theorem format_marker_free_text_witness:
  "marker_free (strip_thinking (strip TAGGED_LINES)) \<and>
   format_ai_response TAGGED_LINES = join [NL] (trimmed_lines (strip_thinking (strip TAGGED_LINES))) \<and>
   join [NL] (trimmed_lines (strip_thinking (strip TAGGED_LINES))) = [97, 10, 98] \<and>
   (marker_free OK_TEXT \<and> strip_thinking (strip OK_TEXT) = strip OK_TEXT \<and>
    NL \<notin> set (strip OK_TEXT)) \<and>
   format_ai_response OK_TEXT = strip OK_TEXT"
proof -
  have s: "strip OK_TEXT = OK_TEXT" by (simp add: OK_TEXT_def strip_def isspace_def)
  have n: "NL \<notin> set OK_TEXT" by (simp add: OK_TEXT_def NL_def)
  have h1: "marker_free (strip_thinking (strip TAGGED_LINES))"
    by (simp add: strip_tagged_lines strip_thinking_tagged_lines marker_free_samples)
  have h2: "marker_free OK_TEXT \<and> strip_thinking (strip OK_TEXT) = strip OK_TEXT \<and>
            NL \<notin> set (strip OK_TEXT)"
    by (simp add: s n strip_thinking_ok marker_free_samples)
  have j: "join [NL] (trimmed_lines (strip_thinking (strip TAGGED_LINES))) = [97, 10, 98]"
    by (simp add: strip_tagged_lines strip_thinking_tagged_lines trimmed_lines_sample)
  from format_marker_free_text[of TAGGED_LINES, THEN conjunct1, rule_format, OF h1]
       format_marker_free_text[of OK_TEXT, THEN conjunct2, rule_format, OF h2]
       h1 h2 j
  show ?thesis by blast
qed


text \<open>
  C4, as the claim states it, fails: the sample text contains no section marker and has
  no outer whitespace, and the formatter removes its thinking tag and its blank line.
\<close>

theorem format_changes_marker_free_text:
  "marker_free TAGGED_LINES \<and> strip TAGGED_LINES = TAGGED_LINES \<and>
   format_ai_response TAGGED_LINES = [97, 10, 98] \<and>
   format_ai_response TAGGED_LINES \<noteq> strip TAGGED_LINES"
  by (simp add: marker_free_samples strip_tagged_lines format_tagged_lines)
     (simp add: TAGGED_LINES_def)

section \<open>The layout of the formatter's output\<close>

lemma matches_suffix: "matches r s t \<Longrightarrow> suffix t s"
proof (induction r arbitrary: s t)
  case (Seq a b)
  from Seq.prems obtain u where "matches a s u" "matches b u t" by (auto simp: matches_Seq)
  with Seq.IH have "suffix u s" "suffix t u" by blast+
  then show ?case by (rule suffix_order.trans[rotated])
qed (auto simp: matches_simps suffix_def)

lemma sub_from_None:
  "first_match adv r s = None \<Longrightarrow>
     sub_from r rp adv s = (case s of [] \<Rightarrow> [] | x # xs \<Rightarrow> x # sub_from r rp False xs)"
  by (subst sub_from.simps) simp

lemma sub_from_Some:
  "first_match adv r s = Some m \<Longrightarrow>
     sub_from r rp adv s = expand rp (fst m) @ sub_from r rp (length (snd m) = length s) (snd m)"
  by (subst sub_from.simps) simp

lemma sub_from_set:
  "(\<forall>g. set (expand rp g) \<subseteq> A) \<Longrightarrow> set (sub_from r rp adv s) \<subseteq> set s \<union> A"
proof (induction r rp adv s rule: sub_from.induct)
  case (1 r rp adv s)
  show ?case
  proof (cases "first_match adv r s")
    case None
    show ?thesis
    proof (cases s)
      case Nil
      with sub_from_None[OF None, of rp] show ?thesis by simp
    next
      case (Cons x xs)
      have "set (sub_from r rp False xs) \<subseteq> set xs \<union> A"
        using "1.IH"(1)[OF None Cons] "1.prems" by blast
      with Cons sub_from_None[OF None, of rp] show ?thesis by auto
    qed
  next
    case (Some m)
    from first_match_matches[OF Some] have "suffix (snd m) s" by (rule matches_suffix)
    then have "set (snd m) \<subseteq> set s" by (auto simp: suffix_def)
    moreover have "set (sub_from r rp (length (snd m) = length s) (snd m)) \<subseteq> set (snd m) \<union> A"
      using "1.IH"(2)[OF Some] "1.prems" by blast
    moreover have "set (expand rp (fst m)) \<subseteq> A" using "1.prems" by blast
    ultimately show ?thesis using sub_from_Some[OF Some, of rp] by auto
  qed
qed

lemma sub_from_Nil: "rmatch r [] = [] \<Longrightarrow> sub_from r rp adv [] = []"
  by (simp add: sub_from_None first_match_None)

lemma sub_from_last:
  "(\<forall>g. expand rp g \<noteq> [] \<and> \<not> isspace (last (expand rp g))) \<Longrightarrow> rmatch r [] = [] \<Longrightarrow>
   s \<noteq> [] \<Longrightarrow> \<not> isspace (last s) \<Longrightarrow>
     sub_from r rp adv s \<noteq> [] \<and> \<not> isspace (last (sub_from r rp adv s))"
proof (induction r rp adv s rule: sub_from.induct)
  case (1 r rp adv s)
  note e = "1.prems"(1) and n = "1.prems"(2)
  show ?case
  proof (cases "first_match adv r s")
    case None
    from "1.prems"(3) obtain x xs where s: "s = x # xs" by (cases s) auto
    have out: "sub_from r rp adv s = x # sub_from r rp False xs"
      using sub_from_None[OF None, of rp] s by simp
    show ?thesis
    proof (cases "xs = []")
      case True
      have "sub_from r rp False [] = []" using n by (rule sub_from_Nil)
      with out s "1.prems"(4) True show ?thesis by simp
    next
      case False
      with s "1.prems"(4) have "\<not> isspace (last xs)" by simp
      with "1.IH"(1)[OF None s e n False] out show ?thesis by simp
    qed
  next
    case (Some m)
    have out: "sub_from r rp adv s
                 = expand rp (fst m) @ sub_from r rp (length (snd m) = length s) (snd m)"
      using Some by (rule sub_from_Some)
    show ?thesis
    proof (cases "snd m = []")
      case True
      have "sub_from r rp (length (snd m) = length s) [] = []" using n by (rule sub_from_Nil)
      with out True e show ?thesis by simp
    next
      case False
      from first_match_matches[OF Some] have "suffix (snd m) s" by (rule matches_suffix)
      with False have "last (snd m) = last s" by (auto simp: suffix_def)
      with "1.IH"(2)[OF Some e n False] "1.prems"(4) out show ?thesis by simp
    qed
  qed
qed

lemma sub_from_hd:
  assumes e: "\<And>g. expand rp g \<noteq> [] \<and> \<not> isspace (hd (expand rp g))"
    and "s \<noteq> []" and "\<not> isspace (hd s)"
  shows "\<not> isspace (hd (sub_from r rp adv s))"
proof (cases "first_match adv r s")
  case None
  with assms(2,3) sub_from_None[OF None, of rp] show ?thesis by (cases s) auto
next
  case (Some m)
  with e[of "fst m"] sub_from_Some[OF Some, of rp] show ?thesis by simp
qed

lemma marker_facts:
  "m \<in> {RISK_LEVEL, RISK_POINT, FEEDING_ADVICE} \<Longrightarrow>
     m \<noteq> [] \<and> NL \<notin> set m \<and> \<not> isspace (hd m) \<and> \<not> isspace FWCOLON \<and> NL \<noteq> FWCOLON"
  by (auto simp: RISK_LEVEL_def RISK_POINT_def FEEDING_ADVICE_def NL_def FWCOLON_def isspace_def)

lemma set_colon_good:
  assumes m: "m \<in> {RISK_LEVEL, RISK_POINT, FEEDING_ADVICE}" and g: "good l"
  shows "good (set_colon (MARKER_OPT_COLON m) m l)"
proof -
  let ?rp = "[RLit (m @ [FWCOLON])]"
  let ?out = "sub_from (MARKER_OPT_COLON m) ?rp False l"
  note mf = marker_facts[OF m]
  have ex: "\<And>g. expand ?rp g = m @ [FWCOLON]" by simp
  have n: "rmatch (MARKER_OPT_COLON m) [] = []"
    using mf by (auto simp: no_match_iff MARKER_OPT_COLON_def matches_Seq matches_Chars)
  have 1: "set ?out \<subseteq> set l \<union> set (m @ [FWCOLON])"
    by (rule sub_from_set) (simp add: ex)
  have 2: "?out \<noteq> [] \<and> \<not> isspace (last ?out)"
    using g mf n by (intro sub_from_last) (auto simp: good_def)
  have 3: "\<not> isspace (hd ?out)"
    using g mf by (intro sub_from_hd) (auto simp: good_def)
  from 1 2 3 g mf show ?thesis
    by (auto simp: good_def set_colon_def re_sub_def)
qed

lemma header_line_good: "good l \<Longrightarrow> good (header_line l)"
  unfolding header_line_def by (intro set_colon_good) auto

lemma blocks_snoc: "concat (map (\<lambda>S. S @ [[]]) secs) @ cs = blocks (secs @ [cs])"
proof (induction secs)
  case Nil
  then show ?case by simp
next
  case (Cons S secs)
  then show ?case by (cases "secs @ [cs]") auto
qed

lemma good_strip: "NL \<notin> set l \<Longrightarrow> strip l \<noteq> [] \<Longrightarrow> good (strip l)"
  using strip_subset[of l] strip_ends[of l] by (auto simp: good_def)

lemma sec_ok_snoc: "sec_ok cs \<Longrightarrow> plain l \<Longrightarrow> sec_ok (cs @ [l])"
  by (cases cs) (auto simp: sec_ok_def)

lemma segment_shape:
  "\<forall>l \<in> set pre. plain l \<Longrightarrow> \<forall>S \<in> set secs0. sec_ok S \<Longrightarrow> (cs = [] \<longrightarrow> secs0 = []) \<Longrightarrow>
   (cs \<noteq> [] \<longrightarrow> sec_ok cs) \<Longrightarrow> \<forall>l \<in> set ls. NL \<notin> set l \<Longrightarrow>
     \<exists>pre' secs. segment (pre @ concat (map (\<lambda>S. S @ [[]]) secs0)) cs ls = pre' @ blocks secs \<and>
        (\<forall>l \<in> set pre'. plain l) \<and> (\<forall>S \<in> set secs. sec_ok S)"
proof (induction ls arbitrary: pre secs0 cs)
  case Nil
  show ?case
  proof (cases "cs = []")
    case True
    with Nil have "segment (pre @ concat (map (\<lambda>S. S @ [[]]) secs0)) cs [] = pre @ blocks []"
      by simp
    with Nil(1) show ?thesis by (metis empty_iff list.set(1))
  next
    case False
    then have "segment (pre @ concat (map (\<lambda>S. S @ [[]]) secs0)) cs []
                 = pre @ blocks (secs0 @ [cs])"
      by (simp add: blocks_snoc)
    moreover have "\<forall>S \<in> set (secs0 @ [cs]). sec_ok S" using Nil False by auto
    ultimately show ?thesis using Nil(1) by blast
  qed
next
  case (Cons l ls)
  let ?fl = "pre @ concat (map (\<lambda>S. S @ [[]]) secs0)"
  let ?line = "strip l"
  have rest: "\<forall>l \<in> set ls. NL \<notin> set l" using Cons.prems(5) by simp
  show ?case
  proof (cases "?line = []")
    case True
    then have "segment ?fl cs (l # ls) = segment ?fl cs ls" by simp
    with Cons.IH[OF Cons.prems(1-4) rest] show ?thesis by simp
  next
    case ne: False
    have g: "good ?line" using Cons.prems(5) ne by (intro good_strip) auto
    show ?thesis
    proof (cases "is_header ?line")
      case True
      have sk: "sec_ok [header_line ?line]" using header_line_good[OF g] by (simp add: sec_ok_def)
      show ?thesis
      proof (cases "cs = []")
        case True
        with \<open>is_header ?line\<close> ne Cons.prems(3)
        have "segment ?fl cs (l # ls)
                = segment (pre @ concat (map (\<lambda>S. S @ [[]]) [])) [header_line ?line] ls"
          by (simp add: Let_def)
        moreover from Cons.IH[of pre "[]" "[header_line ?line]", OF Cons.prems(1) _ _ _ rest] sk
        have "\<exists>pre' secs. segment (pre @ concat (map (\<lambda>S. S @ [[]]) [])) [header_line ?line] ls
                 = pre' @ blocks secs \<and>
                (\<forall>l \<in> set pre'. plain l) \<and> (\<forall>S \<in> set secs. sec_ok S)"
          by simp
        ultimately show ?thesis by simp
      next
        case False
        with \<open>is_header ?line\<close> ne
        have "segment ?fl cs (l # ls)
                = segment (pre @ concat (map (\<lambda>S. S @ [[]]) (secs0 @ [cs]))) [header_line ?line] ls"
          by (simp add: Let_def)
        moreover have "\<forall>S \<in> set (secs0 @ [cs]). sec_ok S" using Cons.prems False by auto
        from Cons.IH[of pre "secs0 @ [cs]" "[header_line ?line]", OF Cons.prems(1) this _ _ rest] sk
        have "\<exists>pre' secs. segment (pre @ concat (map (\<lambda>S. S @ [[]]) (secs0 @ [cs])))
                 [header_line ?line] ls = pre' @ blocks secs \<and>
                (\<forall>l \<in> set pre'. plain l) \<and> (\<forall>S \<in> set secs. sec_ok S)"
          by simp
        ultimately show ?thesis by simp
      qed
    next
      case False
      with g have p: "plain ?line" by (simp add: plain_def)
      show ?thesis
      proof (cases "cs = []")
        case True
        with False ne Cons.prems(3)
        have "segment ?fl cs (l # ls)
                = segment ((pre @ [?line]) @ concat (map (\<lambda>S. S @ [[]]) [])) [] ls"
          by (simp add: Let_def)
        moreover have "\<forall>l \<in> set (pre @ [?line]). plain l" using Cons.prems(1) p by auto
        from Cons.IH[of "pre @ [?line]" "[]" "[]", OF this _ _ _ rest]
        have "\<exists>pre' secs. segment ((pre @ [?line]) @ concat (map (\<lambda>S. S @ [[]]) [])) [] ls
                 = pre' @ blocks secs \<and>
                (\<forall>l \<in> set pre'. plain l) \<and> (\<forall>S \<in> set secs. sec_ok S)"
          by simp
        ultimately show ?thesis by simp
      next
        case cne: False
        with False ne
        have "segment ?fl cs (l # ls) = segment ?fl (cs @ [?line]) ls"
          by (simp add: Let_def)
        moreover have "sec_ok (cs @ [?line])" using Cons.prems(4) cne p by (simp add: sec_ok_snoc)
        from Cons.IH[of pre secs0 "cs @ [?line]", OF Cons.prems(1,2) _ _ rest] this
        have "\<exists>pre' secs. segment ?fl (cs @ [?line]) ls = pre' @ blocks secs \<and>
                (\<forall>l \<in> set pre'. plain l) \<and> (\<forall>S \<in> set secs. sec_ok S)"
          by simp
        ultimately show ?thesis by simp
      qed
    qed
  qed
qed

lemma join_Cons2: "r \<noteq> [] \<Longrightarrow> join sep (l # r) = l @ sep @ join sep r"
  by (cases r) auto

lemma lead_NL_free: "NL \<notin> set t \<Longrightarrow> lead t = 0"
  by (cases t) (auto simp: lead_def)

lemma ok_lines_hd: "ok_lines F \<Longrightarrow> F \<noteq> [] \<Longrightarrow> good (hd F)"
  by (cases F rule: ok_lines.cases) auto

lemma ok_join_lead0: "ok_lines F \<Longrightarrow> lead (join [NL] F) = 0"
proof (cases F)
  case Nil
  then show ?thesis by (simp add: lead_def)
next
  case (Cons l r)
  assume "ok_lines F"
  with Cons ok_lines_hd[of F] have g: "good l" by simp
  then have l: "l \<noteq> []" "NL \<notin> set l" by (auto simp: good_def)
  show ?thesis
  proof (cases r)
    case Nil
    with Cons l(2) show ?thesis by (simp add: lead_NL_free)
  next
    case (Cons m r')
    have "lead (l @ NL # join [NL] (m # r')) = 0" using l by (intro lead_plain)
    with Cons \<open>F = l # r\<close> show ?thesis by simp
  qed
qed

lemma ok_join_suffix_lead: "ok_lines F \<Longrightarrow> suffix t (join [NL] F) \<Longrightarrow> lead t \<le> 2"
proof (induction F arbitrary: t rule: ok_lines.induct)
  case 1
  then show ?case by (simp add: lead_def)
next
  case (2 l)
  then have "NL \<notin> set t" by (auto simp: good_def suffix_def)
  then show ?case by (simp add: lead_NL_free)
next
  case (3 l m r)
  from "3.prems"(1) have gl: "NL \<notin> set l" by (simp add: good_def)
  show ?case
  proof (cases "m = []")
    case False
    with "3.prems"(1) have ok: "ok_lines (m # r)" by simp
    have J: "join [NL] (l # m # r) = l @ NL # join [NL] (m # r)" by simp
    from "3.prems"(2) consider (a) "suffix t (join [NL] (m # r))"
      | (b) "t = NL # join [NL] (m # r)"
      | (c) w where "w \<noteq> []" "suffix w l" "t = w @ NL # join [NL] (m # r)"
      unfolding J by (auto simp: suffix_append suffix_Cons)
    then show ?thesis
    proof cases
      case a
      with "3.IH"(2)[OF False ok] show ?thesis by simp
    next
      case b
      with ok_join_lead0[OF ok] show ?thesis by (simp add: lead_Cons)
    next
      case c
      then have "NL \<notin> set w" using gl by (auto simp: suffix_def)
      from lead_plain[OF this c(1)] c(3) show ?thesis by simp
    qed
  next
    case True
    with "3.prems"(1) have ok: "ok_lines r" and rne: "r \<noteq> []" by simp_all
    have J: "join [NL] (l # m # r) = l @ NL # NL # join [NL] r"
      using True rne by (simp add: join_Cons2)
    from "3.prems"(2) consider (a) "suffix t (join [NL] r)"
      | (b) "t = NL # join [NL] r"
      | (b') "t = NL # NL # join [NL] r"
      | (c) w where "w \<noteq> []" "suffix w l" "t = w @ NL # NL # join [NL] r"
      unfolding J by (auto simp: suffix_append suffix_Cons)
    then show ?thesis
    proof cases
      case a
      with "3.IH"(1)[OF True ok] show ?thesis by simp
    next
      case b
      with ok_join_lead0[OF ok] show ?thesis by (simp add: lead_Cons)
    next
      case b'
      with ok_join_lead0[OF ok] show ?thesis by (simp add: lead_Cons)
    next
      case c
      then have "NL \<notin> set w" using gl by (auto simp: suffix_def)
      from lead_plain[OF this c(1)] c(3) show ?thesis by simp
    qed
  qed
qed

lemma ok_join_ends:
  "ok_lines F \<Longrightarrow> F \<noteq> [] \<Longrightarrow>
     join [NL] F \<noteq> [] \<and> \<not> isspace (hd (join [NL] F)) \<and> \<not> isspace (last (join [NL] F))"
proof (induction F rule: ok_lines.induct)
  case 1
  then show ?case by simp
next
  case (2 l)
  then show ?case by (simp add: good_def)
next
  case (3 l m r)
  from "3.prems"(1) have gl: "l \<noteq> []" "\<not> isspace (hd l)" by (simp_all add: good_def)
  show ?case
  proof (cases "m = []")
    case False
    with "3.prems"(1) have ok: "ok_lines (m # r)" by simp
    from "3.IH"(2)[OF False ok] gl show ?thesis by simp
  next
    case True
    with "3.prems"(1) have ok: "ok_lines r" and rne: "r \<noteq> []" by simp_all
    have J: "join [NL] (l # m # r) = l @ NL # NL # join [NL] r"
      using True rne by (simp add: join_Cons2)
    from "3.IH"(1)[OF True ok rne] gl show ?thesis unfolding J by simp
  qed
qed

lemma ok_goods_append:
  "\<forall>l \<in> set G. good l \<Longrightarrow> ok_lines F \<Longrightarrow> ok_lines (G @ F)"
proof (induction G)
  case Nil
  then show ?case by simp
next
  case (Cons g G)
  then have ok: "ok_lines (G @ F)" by simp
  show ?case
  proof (cases "G @ F")
    case Nil
    with Cons.prems show ?thesis by simp
  next
    case (Cons m r)
    with ok ok_lines_hd[of "G @ F"] have "good m" by simp
    then have "m \<noteq> []" by (simp add: good_def)
    with Cons ok Cons.prems(1) show ?thesis by simp
  qed
qed

lemma ok_goods_sep:
  "G \<noteq> [] \<Longrightarrow> \<forall>l \<in> set G. good l \<Longrightarrow> F \<noteq> [] \<Longrightarrow> ok_lines F \<Longrightarrow> ok_lines (G @ [] # F)"
proof (induction G)
  case Nil
  then show ?case by simp
next
  case (Cons g G)
  show ?case
  proof (cases G)
    case Nil
    with Cons.prems show ?thesis by simp
  next
    case (Cons g' G')
    with Cons.prems have "g' \<noteq> []" by (auto simp: good_def)
    with Cons Cons.IH Cons.prems show ?thesis by simp
  qed
qed

lemma sec_ok_goods: "sec_ok S \<Longrightarrow> S \<noteq> [] \<and> (\<forall>l \<in> set S. good l)"
  by (cases S) (auto simp: sec_ok_def plain_def)

lemma blocks_nonempty: "sec_ok S \<Longrightarrow> blocks (S # r) \<noteq> []"
  by (cases r) (auto simp: sec_ok_def)

lemma ok_blocks: "\<forall>S \<in> set secs. sec_ok S \<Longrightarrow> ok_lines (blocks secs)"
proof (induction secs rule: blocks.induct)
  case 1
  then show ?case by simp
next
  case (2 S)
  then have "\<forall>l \<in> set S. good l" using sec_ok_goods by auto
  from ok_goods_append[OF this, of "[]"] show ?case by simp
next
  case (3 S S' r)
  then have S: "S \<noteq> []" "\<forall>l \<in> set S. good l" using sec_ok_goods[of S] by auto
  have "blocks (S' # r) \<noteq> []" using 3 by (intro blocks_nonempty) auto
  moreover have "ok_lines (blocks (S' # r))" using 3 by auto
  ultimately show ?case using ok_goods_sep[OF S] by simp
qed

lemma ok_layout:
  "\<forall>l \<in> set pre. plain l \<Longrightarrow> \<forall>S \<in> set secs. sec_ok S \<Longrightarrow> ok_lines (pre @ blocks secs)"
  by (intro ok_goods_append ok_blocks) (auto simp: plain_def)

lemma collapse_id2:
  assumes "\<And>t. suffix t s \<Longrightarrow> lead t \<le> 2"
  shows "collapse s = s"
  unfolding collapse_def
proof (rule re_sub_no_match)
  fix t u assume t: "suffix t s"
  show "\<not> matches (Rep (CIn [NL]) 3) t u"
  proof
    assume "matches (Rep (CIn [NL]) 3) t u"
    then obtain w where w: "t = w @ u" "\<forall>x \<in> set w. x = NL" "3 \<le> length w"
      by (auto simp: matches_Rep)
    then have "takeWhile (\<lambda>x. x = NL) t = w @ takeWhile (\<lambda>x. x = NL) u"
      by (simp add: takeWhile_append2)
    then have "3 \<le> lead t" using w(3) by (simp add: lead_def)
    with assms[OF t] show False by simp
  qed
qed

lemma format_layout:
  "\<exists>pre secs. format_ai_response text = join [NL] (pre @ blocks secs) \<and>
      (\<forall>l \<in> set pre. plain l) \<and> (\<forall>S \<in> set secs. sec_ok S)"
proof (cases "text = []")
  case True
  then have "format_ai_response text = join [NL] ([] @ blocks [])"
    by (simp add: format_ai_response_def)
  then show ?thesis by (metis empty_iff list.set(1))
next
  case False
  let ?ls = "split_on NL (normalise_markers (strip_thinking (strip text)))"
  have "\<forall>l \<in> set ?ls. NL \<notin> set l" using split_on_no_sep by blast
  from segment_shape[of "[]" "[]" "[]" ?ls, OF _ _ _ _ this]
  obtain pre secs where sh: "segment [] [] ?ls = pre @ blocks secs"
    and pre: "\<forall>l \<in> set pre. plain l" and secs: "\<forall>S \<in> set secs. sec_ok S"
    by auto
  let ?F = "pre @ blocks secs"
  let ?J = "join [NL] ?F"
  have ok: "ok_lines ?F" using pre secs by (rule ok_layout)
  have c: "collapse ?J = ?J"
    by (rule collapse_id2) (rule ok_join_suffix_lead[OF ok])
  have s: "strip ?J = ?J"
  proof (cases "?F = []")
    case True
    then show ?thesis by (simp add: strip_def)
  next
    case ne: False
    from ok_join_ends[OF ok ne] show ?thesis by (intro strip_id) simp
  qed
  have "format_ai_response text = ?J"
    using False sh c s by (simp add: format_ai_response_def)
  with pre secs show ?thesis by blast
qed

lemma format_trimmed:
  "(format_ai_response text \<noteq> [] \<longrightarrow>
      \<not> isspace (hd (format_ai_response text)) \<and> \<not> isspace (last (format_ai_response text))) \<and>
   \<not> str_in [NL, NL, NL] (format_ai_response text) \<and>
   (text = [] \<longrightarrow> format_ai_response text = [])"
proof (cases "text = []")
  case True
  then show ?thesis by (simp add: format_ai_response_def NL_def)
next
  case False
  then obtain body where out: "format_ai_response text = strip (collapse body)"
    by (simp add: format_ai_response_def)
  have "\<not> str_in [NL, NL, NL] (strip (collapse body))"
    using collapse_no_triple[of body] str_in_strip by blast
  with strip_ends[of "collapse body"] False show ?thesis by (simp add: out)
qed


text \<open>
  C10. The output of \<^verbatim>\<open>format_ai_response\<close>, when not empty, neither starts nor ends
  with a whitespace character; it never contains three consecutive newlines; the empty
  input is returned as it is. The output consists of plain lines followed by sections,
  joined by single newlines, where exactly one empty line stands between each section
  and the next and no other line is empty.
\<close>

theorem format_trimmed_no_triple_newline:
  "(format_ai_response text \<noteq> [] \<longrightarrow>
      \<not> isspace (hd (format_ai_response text)) \<and> \<not> isspace (last (format_ai_response text))) \<and>
   \<not> str_in [NL, NL, NL] (format_ai_response text) \<and>
   (text = [] \<longrightarrow> format_ai_response text = []) \<and>
   (\<exists>pre secs. format_ai_response text = join [NL] (pre @ blocks secs) \<and>
      (\<forall>l \<in> set pre. plain l) \<and> (\<forall>S \<in> set secs. sec_ok S))"
  using format_trimmed[of "text"] format_layout[of "text"] by blast

theorem format_trimmed_no_triple_newline_witness:
  "format_ai_response SPACED_TEXT = [97, 10, 98] \<and>
   \<not> isspace (hd (format_ai_response SPACED_TEXT)) \<and>
   \<not> isspace (last (format_ai_response SPACED_TEXT)) \<and>
   \<not> str_in [NL, NL, NL] (format_ai_response SPACED_TEXT)"
  using format_trimmed_no_triple_newline[of SPACED_TEXT]
  by (simp add: format_spaced_text)

section \<open>The three-section sample answer\<close>

lemma format_sample_answer:
  "format_ai_response SAMPLE_ANSWER =
     [12304, 39118, 38505, 31561, 32423, 12305, 65306, 39640, 10, 10,
      12304, 39118, 38505, 28857, 12305, 65306, 24039, 20811, 21147, 20013, 27602, 10, 10,
      12304, 21890, 20859, 24314, 35758, 12305, 65306, 31105, 27490, 21890, 39135]"
  by (simp add: SAMPLE_ANSWER_def format_eval regex_eval)


text \<open>
  C6. On the sample answer the output has five lines: the risk-level marker with its
  text, an empty line, the risk-point marker with its text, an empty line, and the
  feeding-advice marker with its text. Each marker starts its own line, one blank line
  separates the sections, and the sections keep their order.
\<close>

theorem format_three_sections:
  "split_on NL (format_ai_response SAMPLE_ANSWER) =
     [RISK_LEVEL @ [FWCOLON, 39640],
      [],
      RISK_POINT @ [FWCOLON, 24039, 20811, 21147, 20013, 27602],
      [],
      FEEDING_ADVICE @ [FWCOLON, 31105, 27490, 21890, 39135]]"
  by (simp add: format_sample_answer NL_def FWCOLON_def RISK_LEVEL_def RISK_POINT_def
                FEEDING_ADVICE_def)

end
